theory Spec2Isabelle
  imports Main "HOL-Library.Word" "HOL-Library.Monad_Syntax"
begin

section \<open>The memory allocator of memory-allocation.c\<close>

text \<open>
  The allocator is compiled for wasm32: pointers, \<^verbatim>\<open>unsigned int\<close> and \<^verbatim>\<open>long\<close> are all
  32 bits wide, so every address and every size is a \<open>32 word\<close> whose arithmetic wraps
  around and whose comparisons are unsigned. \<^verbatim>\<open>header_t\<close> is a union of a struct of a
  pointer and an \<^verbatim>\<open>unsigned int\<close> with a \<^verbatim>\<open>long\<close>, 8 bytes in all, so
  \<^verbatim>\<open>sizeof(header_t)\<close> is 8 and \<^verbatim>\<open>p + 1\<close> on a \<^verbatim>\<open>header_t*\<close> adds 8 to the address.
\<close>

type_synonym addr = "32 word"

abbreviation NULL :: addr where "NULL \<equiv> 0"

abbreviation BLKSIZ :: "32 word" where "BLKSIZ \<equiv> 65536"

abbreviation sizeof_header_t :: "32 word" where "sizeof_header_t \<equiv> 8"

abbreviation initial_offset :: "32 word" where "initial_offset \<equiv> 8"

text \<open>
  The two external functions \<^verbatim>\<open>memoryBytesLength\<close> and \<^verbatim>\<open>grow\<close> are declared but not
  defined in the C sources. They are a parameter of the model: a provider over a state
  \<open>'w\<close> of the outside world. \<^verbatim>\<open>grow\<close> returns its result together with the new state of
  the world.
\<close>

record 'w provider =
  memoryBytesLength :: "'w \<Rightarrow> 32 word"
  grow :: "32 word \<Rightarrow> 'w \<Rightarrow> 32 word \<times> 'w"

text \<open>
  The state of the allocator: the two static variables \<^verbatim>\<open>free_list\<close> and
  \<^verbatim>\<open>is_initialised\<close>, the memory as far as the allocator reads and writes it, and the
  world of the provider. The memory is a field-wise heap: \<open>hnext s p\<close> is
  \<^verbatim>\<open>p->value.next\<close> and \<open>hsize s p\<close> is \<^verbatim>\<open>p->value.size\<close> for the header at address \<open>p\<close>.
  Headers at different addresses are different objects of the heap: the allocator only
  makes headers at multiples of 8, which do not overlap. The payload bytes are not part
  of the model, no function of the allocator reads or writes them.
\<close>

record 'w state =
  free_list :: addr
  is_initialised :: "32 word"
  hnext :: "addr \<Rightarrow> addr"
  hsize :: "addr \<Rightarrow> 32 word"
  world :: 'w

subsection \<open>ensureInitialised\<close>

definition ensureInitialised :: "'w provider \<Rightarrow> 'w state \<Rightarrow> 'w state" where
  "ensureInitialised P s =
     (if is_initialised s = 0 then
        let s1 = s\<lparr>is_initialised := 1\<rparr>;
            bytes_length = memoryBytesLength P (world s1);
            unallocated = initial_offset;
            s2 = s1\<lparr>hsize := (hsize s1)(unallocated := bytes_length - (sizeof_header_t + initial_offset))\<rparr>;
            s3 = s2\<lparr>hnext := (hnext s2)(unallocated := NULL)\<rparr>
        in s3\<lparr>free_list := unallocated\<rparr>
      else s)"

subsection \<open>freeMemory\<close>

text \<open>
  The search loop of \<^verbatim>\<open>freeMemory\<close> (lines 163 to 177). It only reads the memory. It
  returns the values of \<^verbatim>\<open>current\<close> and \<^verbatim>\<open>previous\<close> at the exit of the loop. On a
  cyclic list the loop may run forever: the result is then \<open>None\<close>.
\<close>

partial_function (option) free_loop ::
  "'w state \<Rightarrow> addr \<Rightarrow> addr \<Rightarrow> addr \<Rightarrow> (addr \<times> addr) option" where
  "free_loop s unallocated current previous =
     (if current \<noteq> NULL then
        if unallocated > previous \<and> unallocated < current then Some (current, previous)
        else if current = previous \<and> unallocated < current then Some (current, NULL)
        else free_loop s unallocated (hnext s current) current
      else Some (current, previous))"

declare free_loop.simps [code]

text \<open>Lines 179 to 194: attach the freed block to \<^verbatim>\<open>current\<close>.\<close>

definition free_attach_current :: "'w state \<Rightarrow> addr \<Rightarrow> addr \<Rightarrow> 'w state" where
  "free_attach_current s unallocated current =
     (if current \<noteq> NULL then
        if current = (unallocated + sizeof_header_t) + hsize s unallocated then
          let s1 = s\<lparr>hsize := (hsize s)(unallocated :=
                       hsize s unallocated + (hsize s current + sizeof_header_t))\<rparr>
          in s1\<lparr>hnext := (hnext s1)(unallocated := hnext s1 current)\<rparr>
        else s\<lparr>hnext := (hnext s)(unallocated := current)\<rparr>
      else s)"

text \<open>Lines 196 to 215: attach \<^verbatim>\<open>previous\<close> to the freed block.\<close>

definition free_attach_previous :: "'w state \<Rightarrow> addr \<Rightarrow> addr \<Rightarrow> 'w state" where
  "free_attach_previous s unallocated previous =
     (if previous = NULL then s\<lparr>free_list := unallocated\<rparr>
      else if unallocated = (previous + sizeof_header_t) + hsize s previous then
        let s1 = s\<lparr>hsize := (hsize s)(previous :=
                     hsize s previous + (hsize s unallocated + sizeof_header_t))\<rparr>
        in s1\<lparr>hnext := (hnext s1)(previous := hnext s1 unallocated)\<rparr>
      else s\<lparr>hnext := (hnext s)(previous := unallocated)\<rparr>)"

definition freeMemory :: "'w provider \<Rightarrow> 'w state \<Rightarrow> addr \<Rightarrow> 'w state option" where
  "freeMemory P s0 ptr =
     (let s = ensureInitialised P s0 in
      if ptr = NULL then Some s
      else
        let unallocated = ptr - sizeof_header_t in
        if free_list s = NULL then Some (s\<lparr>free_list := unallocated\<rparr>)
        else
          case free_loop s unallocated (free_list s) (free_list s) of
            None \<Rightarrow> None
          | Some (current, previous) \<Rightarrow>
              Some (free_attach_previous (free_attach_current s unallocated current)
                      unallocated previous))"

subsection \<open>getMoreMemory\<close>

text \<open>
  The result is the returned pointer (\<open>NULL\<close> when \<^verbatim>\<open>grow\<close> returned 0) and the new
  state. The subtraction in line 42 mixes \<^verbatim>\<open>long\<close> and \<^verbatim>\<open>unsigned int\<close> of the same
  width and is stored in an \<^verbatim>\<open>unsigned int\<close>: it is the subtraction of 32-bit words.

  Lines 42 and 43 write the header of the new block at the old end of the store, an
  address that comes from the provider. A wasm32 program traps on an access outside its
  memory: when the 8 bytes of that header do not lie inside the store as it is after
  \<^verbatim>\<open>grow\<close> (for one, when \<^verbatim>\<open>grow\<close> was asked for 0 pages), the call does not return, and
  the result is \<open>None\<close>. So \<open>None\<close> stands for a call that does not return to its
  caller: a loop that runs forever or a trap. Every other access of the allocator is to
  a header of the free list, of the block being freed or of the remainder of a split;
  these lie inside the store when the free list is well formed (see \<open>in_store\<close> below).
\<close>

text \<open>Lines 28 to 33: the number of pages that \<^verbatim>\<open>getMoreMemory\<close> asks for.\<close>

definition blocks_for :: "32 word \<Rightarrow> 32 word" where
  "blocks_for bytes_required0 =
     (let bytes_required = bytes_required0 + sizeof_header_t;
          blocks = bytes_required div BLKSIZ
      in if blocks * BLKSIZ < bytes_required then blocks + 1 else blocks)"

definition getMoreMemory ::
  "'w provider \<Rightarrow> 'w state \<Rightarrow> 32 word \<Rightarrow> (addr \<times> 'w state) option" where
  "getMoreMemory P s bytes_required =
     (let blocks = blocks_for bytes_required;
          start_of_new_memory = memoryBytesLength P (world s);
          (end_of_new_memory, w) = grow P blocks (world s);
          s1 = s\<lparr>world := w\<rparr>
      in if end_of_new_memory = 0 then Some (NULL, s1)
         else
           let block_to_insert = start_of_new_memory in
           if unat block_to_insert + 8 \<le> unat (memoryBytesLength P w) then
             let s2 = s1\<lparr>hsize := (hsize s1)(block_to_insert :=
                          end_of_new_memory - start_of_new_memory - sizeof_header_t)\<rparr>;
                 s3 = s2\<lparr>hnext := (hnext s2)(block_to_insert := NULL)\<rparr>
             in case freeMemory P s3 (block_to_insert + sizeof_header_t) of
                  None \<Rightarrow> None
                | Some s4 \<Rightarrow> Some (free_list s4, s4)
           else None)"

subsection \<open>allocateMemory\<close>

text \<open>
  The scan of the free list (lines 86 to 135) with its two returns. The result is
  \<open>Some (Some p, s')\<close> when the loop returns the pointer \<open>p\<close>, \<open>Some (None, s)\<close> when the
  loop ends with no block big enough, and \<open>None\<close> when the loop runs forever.
\<close>

partial_function (option) alloc_loop ::
  "'w state \<Rightarrow> 32 word \<Rightarrow> 32 word \<Rightarrow> addr \<Rightarrow> addr \<Rightarrow> (addr option \<times> 'w state) option" where
  "alloc_loop s bytes_required bytes_required_plus_header current previous =
     (if current \<noteq> NULL then
        if hsize s current = bytes_required then
          if current = free_list s then
            let s1 = s\<lparr>free_list := NULL\<rparr>;
                s2 = s1\<lparr>hnext := (hnext s1)(current := NULL)\<rparr>
            in Some (Some (current + sizeof_header_t), s2)
          else
            let s1 = s\<lparr>hnext := (hnext s)(previous := hnext s current)\<rparr>;
                s2 = s1\<lparr>hnext := (hnext s1)(current := NULL)\<rparr>
            in Some (Some (current + sizeof_header_t), s2)
        else if hsize s current > bytes_required then
          let unallocated = current + bytes_required_plus_header;
              s1 = s\<lparr>hsize := (hsize s)(unallocated :=
                         hsize s current - bytes_required_plus_header)\<rparr>;
              s2 = s1\<lparr>hnext := (hnext s1)(unallocated := hnext s1 current)\<rparr>;
              s3 = (if current = free_list s2 then s2\<lparr>free_list := unallocated\<rparr>
                    else s2\<lparr>hnext := (hnext s2)(previous := unallocated)\<rparr>);
              s4 = s3\<lparr>hsize := (hsize s3)(current := bytes_required)\<rparr>;
              s5 = s4\<lparr>hnext := (hnext s4)(current := NULL)\<rparr>
          in Some (Some (current + sizeof_header_t), s5)
        else alloc_loop s bytes_required bytes_required_plus_header (hnext s current) current
      else Some (None, s))"

declare alloc_loop.simps [code]

text \<open>Line 74: the request rounded up to a multiple of 8, in 32-bit arithmetic.\<close>

definition pad8 :: "32 word \<Rightarrow> 32 word" where
  "pad8 bytes_required = bytes_required + (8 - bytes_required mod 8) mod 8"

text \<open>
  \<^verbatim>\<open>allocateMemory\<close> calls itself after a successful growth, with no bound on the depth:
  it is a partial function, \<open>None\<close> when it does not return (it recurses or loops forever,
  or the growth bridge traps).
\<close>

partial_function (option) allocateMemory ::
  "'w provider \<Rightarrow> 'w state \<Rightarrow> 32 word \<Rightarrow> (addr \<times> 'w state) option" where
  "allocateMemory P s0 bytes_required0 =
     (let s = ensureInitialised P s0;
          bytes_required = pad8 bytes_required0;
          bytes_required_plus_header = bytes_required + sizeof_header_t
      in Option.bind
           (if free_list s = NULL then
              Option.bind (getMoreMemory P s bytes_required_plus_header)
                (\<lambda>(r, s1). Some (s1\<lparr>free_list := r\<rparr>))
            else Some s)
           (\<lambda>s2. if free_list s2 = NULL then Some (NULL, s2)
                 else
                   Option.bind
                     (alloc_loop s2 bytes_required bytes_required_plus_header
                        (free_list s2) (free_list s2))
                     (\<lambda>(found, s3).
                        case found of
                          Some p \<Rightarrow> Some (p, s3)
                        | None \<Rightarrow>
                            Option.bind (getMoreMemory P s3 bytes_required)
                              (\<lambda>(r, s4). if r = NULL then Some (NULL, s4)
                                         else allocateMemory P s4 bytes_required_plus_header))))"

declare allocateMemory.simps [code]

text \<open>
  One invocation of \<^verbatim>\<open>allocateMemory\<close> up to the recursive call of line 141: \<open>Inl\<close> is
  what the invocation returns itself, \<open>Inr\<close> the state and the request of the recursive
  call. It is the body of \<open>allocateMemory\<close> with the recursive call taken out, and is
  used to reason by induction on the retries (lemma \<open>allocateMemory_step\<close>).
\<close>

definition alloc_step ::
  "'w provider \<Rightarrow> 'w state \<Rightarrow> 32 word
     \<Rightarrow> ((addr \<times> 'w state) + ('w state \<times> 32 word)) option" where
  "alloc_step P s0 bytes_required0 =
     (let s = ensureInitialised P s0;
          bytes_required = pad8 bytes_required0;
          bytes_required_plus_header = bytes_required + sizeof_header_t
      in Option.bind
           (if free_list s = NULL then
              Option.bind (getMoreMemory P s bytes_required_plus_header)
                (\<lambda>(r, s1). Some (s1\<lparr>free_list := r\<rparr>))
            else Some s)
           (\<lambda>s2. if free_list s2 = NULL then Some (Inl (NULL, s2))
                 else
                   Option.bind
                     (alloc_loop s2 bytes_required bytes_required_plus_header
                        (free_list s2) (free_list s2))
                     (\<lambda>(found, s3).
                        case found of
                          Some p \<Rightarrow> Some (Inl (p, s3))
                        | None \<Rightarrow>
                            Option.bind (getMoreMemory P s3 bytes_required)
                              (\<lambda>(r, s4). if r = NULL then Some (Inl (NULL, s4))
                                         else Some (Inr (s4, bytes_required_plus_header))))))"

subsection \<open>reportFreeMemory\<close>

partial_function (option) report_loop :: "'w state \<Rightarrow> addr \<Rightarrow> 32 word \<Rightarrow> 32 word option" where
  "report_loop s current total' =
     (if current \<noteq> NULL then report_loop s (hnext s current) (total' + hsize s current)
      else Some total')"

declare report_loop.simps [code]

text \<open>
  The C function returns the 32-bit total converted to \<^verbatim>\<open>double\<close>, which is exact; the
  model returns the total as a natural number, with the state after the guard.
\<close>

definition reportFreeMemory :: "'w provider \<Rightarrow> 'w state \<Rightarrow> (nat \<times> 'w state) option" where
  "reportFreeMemory P s0 =
     (let s = ensureInitialised P s0 in
      if free_list s = NULL then Some (0, s)
      else map_option (\<lambda>total'. (unat total', s)) (report_loop s (free_list s) 0))"

subsection \<open>The state at program start and a provider of pages\<close>

text \<open>
  At program start the static variables hold their initialisers (\<^verbatim>\<open>free_list\<close> is
  \<open>NULL\<close>, \<^verbatim>\<open>is_initialised\<close> is 0) and the memory is all zero.
\<close>

definition boot :: "'w \<Rightarrow> 'w state" where
  "boot w = \<lparr>free_list = NULL, is_initialised = 0, hnext = (\<lambda>_. 0), hsize = (\<lambda>_. 0),
             world = w\<rparr>"

text \<open>
  Modelled from the spec: the growth provider, which the C sources only declare. Its
  world is the number of 65536-byte pages of the backing store, with a log of the page
  counts that \<^verbatim>\<open>grow\<close> was called with. \<open>memoryBytesLength\<close> is the current size in
  bytes. \<open>grow n\<close> extends the store by \<open>n\<close> pages and returns the new total length, or
  returns the failure sentinel 0 and leaves the store as it is when that would exceed
  \<open>max_pages\<close>.
\<close>

record store =
  pages :: nat
  grow_log :: "32 word list"

definition page_provider :: "nat \<Rightarrow> store provider" where
  "page_provider max_pages =
     \<lparr>memoryBytesLength = (\<lambda>w. of_nat (pages w * 65536)),
      grow = (\<lambda>n w. if pages w + unat n \<le> max_pages
                     then (of_nat ((pages w + unat n) * 65536),
                           w\<lparr>pages := pages w + unat n, grow_log := grow_log w @ [n]\<rparr>)
                     else (0, w\<lparr>grow_log := grow_log w @ [n]\<rparr>))\<rparr>"

subsection \<open>The free list as a list of addresses\<close>

text \<open>
  \<open>fl_seg nx p ps q\<close>: following the links \<open>nx\<close> from \<open>p\<close> visits the headers \<open>ps\<close>, none
  of them at \<open>NULL\<close>, and arrives at \<open>q\<close>. \<open>free_blocks s ps\<close>: the free list of \<open>s\<close>
  consists of the blocks \<open>ps\<close>, from head to tail.
\<close>

primrec fl_seg :: "(addr \<Rightarrow> addr) \<Rightarrow> addr \<Rightarrow> addr list \<Rightarrow> addr \<Rightarrow> bool" where
  "fl_seg nx p [] q = (p = q)"
| "fl_seg nx p (a # as) q = (p = a \<and> a \<noteq> NULL \<and> fl_seg nx (nx a) as q)"

definition free_blocks :: "'w state \<Rightarrow> addr list \<Rightarrow> bool" where
  "free_blocks s ps = fl_seg (hnext s) (free_list s) ps NULL"

subsection \<open>Well-formed free lists\<close>

text \<open>
  \<open>separated s ps\<close>: every block of \<open>ps\<close> ends strictly before each later block starts,
  in natural-number arithmetic, so the addresses increase strictly, no two blocks overlap
  and no two blocks are physically adjacent. \<open>in_store P s p\<close>: the block at \<open>p\<close> lies
  above the reserved region and ends inside the backing store. \<open>well_formed P s ps\<close>: the
  free list of \<open>s\<close> is \<open>ps\<close>, separated, inside the store, with sizes that are multiples
  of 8.
\<close>

definition block_end :: "'w state \<Rightarrow> addr \<Rightarrow> nat" where
  "block_end s p = unat p + 8 + unat (hsize s p)"

definition separated :: "'w state \<Rightarrow> addr list \<Rightarrow> bool" where
  "separated s ps = sorted_wrt (\<lambda>p q. block_end s p < unat q) ps"

definition in_store :: "'w provider \<Rightarrow> 'w state \<Rightarrow> addr \<Rightarrow> bool" where
  "in_store P s p =
     (8 \<le> unat p \<and> block_end s p \<le> unat (memoryBytesLength P (world s))
      \<and> unat (hsize s p) mod 8 = 0)"

definition well_formed :: "'w provider \<Rightarrow> 'w state \<Rightarrow> addr list \<Rightarrow> bool" where
  "well_formed P s ps = (free_blocks s ps \<and> separated s ps \<and> (\<forall>p\<in>set ps. in_store P s p))"

text \<open>The free bytes of the blocks \<open>ps\<close>: the sum of their sizes, as a natural number.\<close>

definition free_bytes :: "'w state \<Rightarrow> addr list \<Rightarrow> nat" where
  "free_bytes s ps = (\<Sum>p\<leftarrow>ps. unat (hsize s p))"

section \<open>Properties\<close>

subsection \<open>Paths in the heap and the loops on them\<close>

lemma fl_seg_append:
  "fl_seg nx p (as @ bs) q = (\<exists>m. fl_seg nx p as m \<and> fl_seg nx m bs q)"
  by (induction as arbitrary: p) auto

lemma fl_seg_upd_notin:
  "u \<notin> set as \<Longrightarrow> fl_seg (nx(u := v)) p as q = fl_seg nx p as q"
  by (induction as arbitrary: p) auto

lemma fl_seg_notnull: "fl_seg nx p as q \<Longrightarrow> NULL \<notin> set as"
  by (induction as arbitrary: p) auto

lemma fl_seg_last_upd:
  "fl_seg nx p as m \<Longrightarrow> as \<noteq> [] \<Longrightarrow> distinct as \<Longrightarrow> fl_seg (nx(last as := y)) p as y"
proof (induction as arbitrary: p)
  case Nil
  then show ?case by simp
next
  case (Cons a as)
  show ?case
  proof (cases "as = []")
    case True
    with Cons.prems show ?thesis by simp
  next
    case False
    with Cons.prems have "last as \<noteq> a" by auto
    with Cons False show ?thesis by simp
  qed
qed

lemma fl_seg_unique: "fl_seg nx p as NULL \<Longrightarrow> fl_seg nx p bs NULL \<Longrightarrow> as = bs"
proof (induction as arbitrary: p bs)
  case Nil
  then show ?case by (cases bs) auto
next
  case (Cons a as)
  then show ?case by (cases bs) auto
qed

lemma alloc_loop_skip:
  assumes "fl_seg (hnext s) cur pre c"
    and "\<forall>p\<in>set pre. hsize s p < S"
  shows "alloc_loop s S H cur prev = alloc_loop s S H c (if pre = [] then prev else last pre)"
  using assms
proof (induction pre arbitrary: cur prev)
  case Nil
  then show ?case by simp
next
  case (Cons a pre)
  from Cons.prems have a: "cur = a" "a \<noteq> NULL" and rest: "fl_seg (hnext s) (hnext s a) pre c"
    and small: "hsize s a < S" and smalls: "\<forall>p\<in>set pre. hsize s p < S"
    by simp_all
  have "alloc_loop s S H cur prev = alloc_loop s S H (hnext s a) a"
    using a small by (subst alloc_loop.simps) (auto simp: not_less)
  also have "\<dots> = alloc_loop s S H c (if pre = [] then a else last pre)"
    using Cons.IH [OF rest smalls] .
  finally show ?case by simp
qed

lemma report_loop_path:
  "fl_seg (hnext s) p ps NULL \<Longrightarrow> report_loop s p acc = Some (acc + sum_list (map (hsize s) ps))"
proof (induction ps arbitrary: p acc)
  case Nil
  then show ?case by (simp add: report_loop.simps)
next
  case (Cons a ps)
  then show ?case by (subst report_loop.simps) (simp add: add.assoc)
qed

lemma free_loop_walk:
  assumes "fl_seg (hnext s) cur mid q"
    and "\<forall>p\<in>set mid. p < x"
    and "prev < x"
    and "q = NULL \<or> x < q"
  shows "free_loop s x cur prev = Some (q, if mid = [] then prev else last mid)"
  using assms
proof (induction mid arbitrary: cur prev)
  case Nil
  then show ?case by (subst free_loop.simps) auto
next
  case (Cons a mid)
  from Cons.prems have a: "cur = a" "a \<noteq> NULL" "a < x"
    and rest: "fl_seg (hnext s) (hnext s a) mid q" and lt: "\<forall>p\<in>set mid. p < x"
    by simp_all
  have "free_loop s x cur prev = free_loop s x (hnext s a) a"
    using a by (subst free_loop.simps) (auto simp: not_less dest: less_imp_le)
  also have "\<dots> = Some (q, if mid = [] then a else last mid)"
    using Cons.IH [OF rest lt \<open>a < x\<close> Cons.prems(4)] .
  finally show ?case by simp
qed

lemma free_loop_path:
  assumes "fl_seg (hnext s) fl pre q" and "fl \<noteq> NULL"
    and "\<forall>p\<in>set pre. p < x"
    and "q = NULL \<or> x < q"
  shows "free_loop s x fl fl = Some (q, if pre = [] then NULL else last pre)"
proof (cases pre)
  case Nil
  with assms have "fl = q" "x < fl" by auto
  then show ?thesis using Nil assms(2) by (subst free_loop.simps) auto
next
  case (Cons a mid)
  with assms have a: "fl = a" "a \<noteq> NULL" "a < x"
    and rest: "fl_seg (hnext s) (hnext s a) mid q" and lt: "\<forall>p\<in>set mid. p < x"
    by simp_all
  have "free_loop s x fl fl = free_loop s x (hnext s a) a"
    using a by (subst free_loop.simps) (auto simp: not_less dest: less_imp_le)
  also have "\<dots> = Some (q, if mid = [] then a else last mid)"
    using free_loop_walk [OF rest lt \<open>a < x\<close> assms(4)] .
  finally show ?thesis using Cons by simp
qed

subsection \<open>Word arithmetic\<close>

lemma unat_split_addr:
  fixes c S sz :: "32 word"
  assumes "unat c + 8 + unat sz \<le> unat (L :: 32 word)" and "S < sz"
  shows "unat (c + (S + 8)) = unat c + unat S + 8"
proof -
  have "unat S < unat sz" using assms(2) by (simp add: word_less_nat_alt)
  moreover have "unat L < 2 ^ 32" using unsigned_less [of L] by simp
  ultimately have b: "unat c + unat S + 8 < 2 ^ 32" using assms(1) by linarith
  then have "unat (S + 8) = unat S + 8"
    by (simp add: unat_word_ariths)
  then show ?thesis using b by (simp add: unat_word_ariths)
qed

lemma round8_nat: "((n::nat) + (8 - n mod 8) mod 8) mod 8 = 0"
proof -
  define q r where "q = n div 8" and "r = n mod 8"
  have n: "n = 8 * q + r" and r: "r < 8" by (simp_all add: q_def r_def)
  have nr: "n mod 8 = r" by (simp add: r_def)
  show ?thesis
  proof (cases "r = 0")
    case True
    then show ?thesis using nr by simp
  next
    case False
    then have "(8 - r) mod 8 = 8 - r" using r by simp
    moreover have "n + (8 - r) = 8 * (q + 1)" using n r by (simp add: algebra_simps)
    ultimately show ?thesis using nr by simp
  qed
qed


lemma pad8_mod8: "unat (pad8 b) mod 8 = 0"
proof -
  define n where "n = unat b"
  have m: "unat (b mod 8) = n mod 8" by (simp add: n_def unat_mod)
  have "b mod 8 \<le> 8" by (simp add: word_le_nat_alt m) 
  then have j: "unat (8 - b mod 8) = 8 - n mod 8" using m by (simp add: unat_sub)
  have k: "unat ((8 - b mod 8) mod 8) = (8 - n mod 8) mod 8"
    by (simp only: unat_mod j) simp
  have "unat (pad8 b) = (n + (8 - n mod 8) mod 8) mod 2 ^ 32"
    unfolding pad8_def by (simp only: unat_word_ariths(1) k n_def) simp
  also have "\<dots> mod 8 = (n + (8 - n mod 8) mod 8) mod 8"
    by (simp add: mod_mod_cancel)
  also have "\<dots> = 0" by (rule round8_nat)
  finally show ?thesis .
qed

lemma alloc_loop_split:
  assumes pre: "fl_seg (hnext s) (free_list s) pre c" and c: "c \<noteq> NULL"
    and post: "fl_seg (hnext s) (hnext s c) post NULL"
    and small: "\<forall>p\<in>set pre. hsize s p < S" and big: "S < hsize s c"
    and dist: "distinct (pre @ c # post)"
    and u: "u = c + H" "u \<notin> set (pre @ c # post)" "u \<noteq> NULL"
  shows "\<exists>s'. alloc_loop s S H (free_list s) (free_list s) = Some (Some (c + sizeof_header_t), s')
           \<and> free_blocks s' (pre @ u # post)
           \<and> hsize s' = (hsize s)(u := hsize s c - H, c := S)
           \<and> hnext s' u = hnext s c \<and> hnext s' c = NULL
           \<and> world s' = world s \<and> is_initialised s' = is_initialised s"
proof -
  have ne: "hsize s c \<noteq> S" using big by auto
  have skip: "alloc_loop s S H (free_list s) (free_list s)
        = alloc_loop s S H c (if pre = [] then free_list s else last pre)"
    using alloc_loop_skip [OF pre small] .
  show ?thesis
  proof (cases "pre = []")
    case True
    with pre have head: "free_list s = c" by simp
    have p': "fl_seg ((hnext s)(u := hnext s c, c := NULL)) (hnext s c) post NULL"
      using post u(2) dist by (simp add: fl_seg_upd_notin)
    have "alloc_loop s S H c c = Some (Some (c + sizeof_header_t),
            s\<lparr>hsize := (hsize s)(u := hsize s c - H, c := S),
              hnext := (hnext s)(u := hnext s c, c := NULL), free_list := u\<rparr>)"
      using c ne big head u(1) by (subst alloc_loop.simps) (simp add: Let_def)
    then show ?thesis
      using skip True head p' u by (simp add: free_blocks_def)
  next
    case False
    define prev where "prev = last pre"
    have prev_in: "prev \<in> set pre" using False by (simp add: prev_def)
    have head: "free_list s \<noteq> c"
    proof
      assume "free_list s = c"
      moreover from pre False have "free_list s = hd pre" by (cases pre) auto
      ultimately have "c \<in> set pre" using False by (metis hd_in_set)
      with dist show False by simp
    qed
    have prev_ne: "prev \<noteq> u" "prev \<noteq> c" "prev \<notin> set post" "u \<noteq> c" "c \<notin> set pre" "c \<notin> set post"
      using prev_in dist u(2) by auto
    define nx where "nx = (hnext s)(u := hnext s c, prev := u, c := NULL)"
    have "fl_seg ((hnext s)(u := hnext s c)) (free_list s) pre c"
      using pre u(2) by (simp add: fl_seg_upd_notin)
    then have "fl_seg ((hnext s)(u := hnext s c, prev := u)) (free_list s) pre u"
      unfolding prev_def using False dist by (intro fl_seg_last_upd) simp_all
    then have s1: "fl_seg nx (free_list s) pre u"
      unfolding nx_def using prev_ne by (simp add: fl_seg_upd_notin)
    have s2: "fl_seg nx (hnext s c) post NULL"
      unfolding nx_def using post u(2) prev_ne by (simp add: fl_seg_upd_notin)
    have nxu: "nx u = hnext s c" "nx c = NULL" unfolding nx_def using prev_ne by auto
    have path: "fl_seg nx (free_list s) (pre @ u # post) NULL"
      using s1 s2 nxu u(3) by (auto simp: fl_seg_append)
    have "alloc_loop s S H c prev = Some (Some (c + sizeof_header_t),
            s\<lparr>hsize := (hsize s)(u := hsize s c - H, c := S), hnext := nx\<rparr>)"
      using c ne big head u(1) unfolding nx_def by (subst alloc_loop.simps) (simp add: Let_def)
    then show ?thesis
      using skip False path nxu by (simp add: free_blocks_def prev_def)
  qed
qed

subsection \<open>The guard and the growth bridge\<close>

lemmas eval_defs = ensureInitialised_def pad8_def boot_def page_provider_def alloc_loop.simps
  free_loop.simps report_loop.simps freeMemory_def reportFreeMemory_def free_attach_current_def
  free_attach_previous_def getMoreMemory_def blocks_for_def Let_def

lemma ensureInitialised_twice: "ensureInitialised P (ensureInitialised P s) = ensureInitialised P s"
  by (simp add: ensureInitialised_def Let_def)

lemma ensureInitialised_funpow:
  "(ensureInitialised P ^^ n) (ensureInitialised P s) = ensureInitialised P s"
  by (induction n) (simp_all add: ensureInitialised_twice)

lemma ensureInitialised_done: "is_initialised s \<noteq> 0 \<Longrightarrow> ensureInitialised P s = s"
  by (simp add: ensureInitialised_def)

text \<open>
  Claim C9, as amended. \<open>freeMemory\<close> of \<open>NULL\<close> does what the guard does and nothing
  else: on an initialised state it leaves the whole state, and so the free list, as it
  was. On a state that is not yet initialised the guard installs the initial block, so
  the free list does change there (the counterexample below).
\<close>

theorem freeMemory_NULL:
  "freeMemory P s NULL = Some (ensureInitialised P s)
   \<and> (is_initialised s \<noteq> 0 \<longrightarrow> freeMemory P s NULL = Some s)"
  by (simp add: freeMemory_def ensureInitialised_done)

theorem freeMemory_NULL_witness:
  "is_initialised (ensureInitialised (page_provider 4) (boot \<lparr>pages = 1, grow_log = []\<rparr>)) \<noteq> 0
   \<and> freeMemory (page_provider 4) (ensureInitialised (page_provider 4) (boot \<lparr>pages = 1, grow_log = []\<rparr>)) NULL
       = Some (ensureInitialised (page_provider 4) (boot \<lparr>pages = 1, grow_log = []\<rparr>))"
  using freeMemory_NULL [of "page_provider 4" "ensureInitialised (page_provider 4) (boot \<lparr>pages = 1, grow_log = []\<rparr>)"]
  by (simp add: ensureInitialised_def boot_def Let_def)

theorem freeMemory_NULL_uninitialised_counterexample:
  "free_list (boot \<lparr>pages = 1, grow_log = []\<rparr>) = NULL
   \<and> map_option free_list (freeMemory (page_provider 4) (boot \<lparr>pages = 1, grow_log = []\<rparr>) NULL)
       = Some 8"
  by (simp add: freeMemory_def ensureInitialised_def boot_def Let_def)

lemma getMoreMemory_failure:
  assumes "fst (grow P (blocks_for n) (world s)) = 0"
  shows "getMoreMemory P s n = Some (NULL, s\<lparr>world := snd (grow P (blocks_for n) (world s))\<rparr>)"
  using assms by (cases "grow P (blocks_for n) (world s)") (simp add: getMoreMemory_def)

text \<open>
  When the growth attempt of the invocation itself fails (\<open>grow\<close> returns 0), whether it is
  made because the free list is empty or because the scan found no fitting block,
  \<open>allocateMemory\<close> returns \<open>NULL\<close> and the state is the one before that attempt in
  everything but the provider's world.
\<close>

lemma allocateMemory_growth_failure:
  assumes "s = ensureInitialised P s0" and "S = pad8 b"
    and "if free_list s = NULL then fst (grow P (blocks_for (S + sizeof_header_t)) (world s)) = 0
         else alloc_loop s S (S + sizeof_header_t) (free_list s) (free_list s) = Some (None, s)
              \<and> fst (grow P (blocks_for S) (world s)) = 0"
  shows "\<exists>w. allocateMemory P s0 b = Some (NULL, s\<lparr>world := w\<rparr>)"
proof (cases "free_list s = NULL")
  case True
  with assms(3) have g: "fst (grow P (blocks_for (S + sizeof_header_t)) (world s)) = 0" by simp
  have "getMoreMemory P s (S + sizeof_header_t)
        = Some (NULL, s\<lparr>world := snd (grow P (blocks_for (S + sizeof_header_t)) (world s))\<rparr>)"
    using g by (rule getMoreMemory_failure)
  then have "allocateMemory P s0 b
        = Some (NULL, s\<lparr>world := snd (grow P (blocks_for (S + sizeof_header_t)) (world s))\<rparr>)"
    using True assms(1,2) by (subst allocateMemory.simps) (simp add: Let_def)
  then show ?thesis by blast
next
  case False
  with assms(3) have scan: "alloc_loop s S (S + sizeof_header_t) (free_list s) (free_list s) = Some (None, s)"
    and g: "fst (grow P (blocks_for S) (world s)) = 0" by simp_all
  have "getMoreMemory P s S = Some (NULL, s\<lparr>world := snd (grow P (blocks_for S) (world s))\<rparr>)"
    using g by (rule getMoreMemory_failure)
  then have "allocateMemory P s0 b
        = Some (NULL, s\<lparr>world := snd (grow P (blocks_for S) (world s))\<rparr>)"
    using False scan assms(1,2) by (subst allocateMemory.simps) (simp add: Let_def)
  then show ?thesis by blast
qed

subsection \<open>Splitting a block\<close>

lemma separated_Cons:
  "separated s (a # ps) = ((\<forall>q\<in>set ps. block_end s a < unat q) \<and> separated s ps)"
  by (simp add: separated_def)

lemma separated_append:
  "separated s (as @ bs)
     = (separated s as \<and> separated s bs \<and> (\<forall>p\<in>set as. \<forall>q\<in>set bs. block_end s p < unat q))"
  by (simp add: separated_def sorted_wrt_append)

lemma block_end_gt: "unat p < block_end s p"
  by (simp add: block_end_def)

lemma separated_distinct: "separated s ps \<Longrightarrow> distinct ps"
proof (induction ps)
  case Nil
  then show ?case by simp
next
  case (Cons a ps)
  then have "a \<notin> set ps"
    using block_end_gt [of a s] by (auto simp: separated_Cons)
  with Cons show ?case by (simp add: separated_Cons)
qed

lemma separated_cong:
  assumes "\<forall>p\<in>set ps. hsize s' p = hsize s p"
  shows "separated s' ps = separated s ps"
proof -
  have "block_end s' p = block_end s p" if "p \<in> set ps" for p
    using assms that by (simp add: block_end_def)
  then have "sorted_wrt (\<lambda>p q. block_end s' p < unat q) ps
           = sorted_wrt (\<lambda>p q. block_end s p < unat q) ps"
    by (auto elim!: sorted_wrt_mono_rel [rotated])
  then show ?thesis by (simp add: separated_def)
qed

lemma in_store_cong:
  assumes "hsize s' p = hsize s p" and "world s' = world s"
  shows "in_store P s' p = in_store P s p"
  using assms by (simp add: in_store_def block_end_def)

lemma allocateMemory_found:
  assumes "s = ensureInitialised P s0" and "free_list s \<noteq> NULL"
    and "alloc_loop s (pad8 b) (pad8 b + sizeof_header_t) (free_list s) (free_list s)
           = Some (Some p, s')"
  shows "allocateMemory P s0 b = Some (p, s')"
  using assms by (subst allocateMemory.simps) (simp add: Let_def)

lemma mod8_gap:
  fixes a b :: nat
  assumes "a mod 8 = 0" and "b mod 8 = 0" and "a < b"
  shows "a + 8 \<le> b"
proof -
  have "a = 8 * (a div 8)" "b = 8 * (b div 8)" using assms(1,2) by auto
  then obtain i j where ij: "a = 8 * i" "b = 8 * j" by blast
  with assms(3) have "i < j" by simp
  then have "i + 1 \<le> j" by simp
  then have "8 * (i + 1) \<le> 8 * j" by (rule mult_le_mono2)
  then show ?thesis using ij by simp
qed

lemma allocateMemory_split_facts:
  assumes s: "s = ensureInitialised P s0"
    and wf: "well_formed P s (pre @ c # post)"
    and S: "S = pad8 b"
    and small: "\<forall>p\<in>set pre. hsize s p < S"
    and big: "S < hsize s c"
    and u: "u = c + (S + sizeof_header_t)"
  shows "\<exists>s'. allocateMemory P s0 b = Some (c + sizeof_header_t, s')
           \<and> well_formed P s' (pre @ u # post)
           \<and> unat u = unat c + 8 + unat S
           \<and> hsize s' u = hsize s c - S - sizeof_header_t
           \<and> unat (hsize s' u) = unat (hsize s c) - unat S - 8
           \<and> hnext s' u = hnext s c
           \<and> hsize s' c = S \<and> hnext s' c = NULL
           \<and> (\<forall>p. p \<noteq> u \<and> p \<noteq> c \<longrightarrow> hsize s' p = hsize s p)
           \<and> (\<forall>p\<in>set pre \<union> set post. hsize s' p = hsize s p)
           \<and> block_end s' u = block_end s c \<and> unat S + 8 \<le> unat (hsize s c)
           \<and> u \<notin> set pre \<and> u \<notin> set post \<and> u \<noteq> c
           \<and> world s' = world s \<and> is_initialised s' = is_initialised s"
proof -
  from wf have path: "free_blocks s (pre @ c # post)" and sep: "separated s (pre @ c # post)"
    and store: "\<forall>p\<in>set (pre @ c # post). in_store P s p"
    by (simp_all add: well_formed_def)
  have dist: "distinct (pre @ c # post)" using sep by (rule separated_distinct)
  from path obtain m where seg1: "fl_seg (hnext s) (free_list s) pre m"
    and seg2: "fl_seg (hnext s) m (c # post) NULL"
    unfolding free_blocks_def fl_seg_append by blast
  then have pre: "fl_seg (hnext s) (free_list s) pre c" and c0: "c \<noteq> NULL"
    and post: "fl_seg (hnext s) (hnext s c) post NULL" by simp_all
  have head: "free_list s \<noteq> NULL"
    using pre c0 by (cases pre) auto
  have cstore: "in_store P s c" using store by simp
  then have cend: "block_end s c \<le> unat (memoryBytesLength P (world s))"
    and c8: "8 \<le> unat c" and cmod: "unat (hsize s c) mod 8 = 0"
    by (simp_all add: in_store_def)
  have Slt: "unat S < unat (hsize s c)" using big by (simp add: word_less_nat_alt)
  have Sgap: "unat S + 8 \<le> unat (hsize s c)"
    using pad8_mod8 [of b] cmod Slt unfolding S by (intro mod8_gap) simp_all
  have uu: "unat u = unat c + unat S + 8"
    unfolding u using cend big unfolding block_end_def by (rule unat_split_addr)
  have ulo: "unat c < unat u" and uhi: "unat u + 8 \<le> block_end s c"
    using uu Sgap by (simp_all add: block_end_def)
  have before: "block_end s p < unat c" if "p \<in> set pre" for p
    using sep that by (simp add: separated_append)
  have after: "block_end s c < unat q" if "q \<in> set post" for q
    using sep that by (simp add: separated_append separated_Cons)
  have u_pre: "u \<notin> set pre"
  proof
    assume "u \<in> set pre"
    then have "block_end s u < unat c" by (rule before)
    then show False using ulo block_end_gt [of u s] by simp
  qed
  have u_post: "u \<notin> set post"
  proof
    assume "u \<in> set post"
    then have "block_end s c < unat u" by (rule after)
    then show False using uhi by simp
  qed
  have u_c: "u \<noteq> c" using ulo by auto
  have u0: "u \<noteq> NULL" using ulo by auto
  have unotin: "u \<notin> set (pre @ c # post)" using u_pre u_post u_c by simp
  have uH: "u = c + (S + sizeof_header_t)" by (rule u)
  from alloc_loop_split [OF pre c0 post small big dist uH unotin u0]
  obtain s' where run: "alloc_loop s S (S + sizeof_header_t) (free_list s) (free_list s)
                          = Some (Some (c + sizeof_header_t), s')"
    and path': "free_blocks s' (pre @ u # post)"
    and sz': "hsize s' = (hsize s)(u := hsize s c - (S + sizeof_header_t), c := S)"
    and nx': "hnext s' u = hnext s c" "hnext s' c = NULL"
    and w': "world s' = world s" and i': "is_initialised s' = is_initialised s"
    by blast
  have res: "allocateMemory P s0 b = Some (c + sizeof_header_t, s')"
    using s head run unfolding S by (rule allocateMemory_found)
  have szu: "hsize s' u = hsize s c - S - sizeof_header_t"
    using u_c by (simp add: sz' diff_diff_add)
  have "unat (hsize s c) < 2 ^ 32" using unsigned_less [of "hsize s c"] by simp
  then have S8: "unat (S + sizeof_header_t) = unat S + 8"
    using Sgap by (simp add: unat_word_ariths)
  then have "S + sizeof_header_t \<le> hsize s c"
    using Sgap by (simp add: word_le_nat_alt)
  then have "unat (hsize s c - (S + sizeof_header_t)) = unat (hsize s c) - (unat S + 8)"
    using S8 by (simp add: unat_sub)
  then have unat_szu: "unat (hsize s' u) = unat (hsize s c) - unat S - 8"
    using u_c by (simp add: sz')
  have szc: "hsize s' c = S" by (simp add: sz')
  have frame: "hsize s' p = hsize s p" if "p \<noteq> u" "p \<noteq> c" for p
    using that by (simp add: sz')
  have frame_pre: "\<forall>p\<in>set pre. hsize s' p = hsize s p"
  proof
    fix p assume "p \<in> set pre"
    then have "p \<noteq> u" "p \<noteq> c" using u_pre dist by auto
    then show "hsize s' p = hsize s p" by (rule frame)
  qed
  have frame_post: "\<forall>p\<in>set post. hsize s' p = hsize s p"
  proof
    fix p assume "p \<in> set post"
    then have "p \<noteq> u" "p \<noteq> c" using u_post dist by auto
    then show "hsize s' p = hsize s p" by (rule frame)
  qed
  have uend: "block_end s' u = block_end s c"
    using uu unat_szu Sgap by (simp add: block_end_def)
  have sep_pre: "separated s' pre"
    using sep frame_pre by (simp add: separated_append separated_cong [of pre s' s])
  have sep_post: "separated s' post"
    using sep frame_post by (simp add: separated_append separated_Cons separated_cong [of post s' s])
  have be_pre: "block_end s' p = block_end s p" if "p \<in> set pre" for p
    using frame_pre that by (simp add: block_end_def)
  have cross1: "\<forall>p\<in>set pre. block_end s' p < unat u"
    using before be_pre ulo by fastforce
  have cross2: "\<forall>q\<in>set post. block_end s' u < unat q"
    using after uend by simp
  have cross3: "\<forall>p\<in>set pre. \<forall>q\<in>set post. block_end s' p < unat q"
    using sep be_pre by (simp add: separated_append)
  have sep': "separated s' (pre @ u # post)"
    using sep_pre sep_post cross1 cross2 cross3 by (simp add: separated_append separated_Cons)
  have ustore: "in_store P s' u"
  proof -
    have "unat (hsize s' u) mod 8 = 0"
    proof -
      have "unat (hsize s c) = (unat (hsize s c) - unat S - 8) + (unat S + 8)" using Sgap by simp
      moreover have "(unat S + 8) mod 8 = 0" using pad8_mod8 [of b] unfolding S by simp
      ultimately have "(unat (hsize s c) - unat S - 8) mod 8 = 0"
        using cmod by (metis add.right_neutral mod_add_eq mod_mod_trivial)
      then show ?thesis by (simp add: unat_szu)
    qed
    then show ?thesis
      using c8 ulo uend cend w' by (simp add: in_store_def)
  qed
  have store': "\<forall>p\<in>set (pre @ u # post). in_store P s' p"
    using store ustore frame_pre frame_post w' by (auto simp: in_store_cong [of s' _ s])
  have wf': "well_formed P s' (pre @ u # post)"
    using path' sep' store' by (simp add: well_formed_def)
  show ?thesis
    using res wf' uu szu unat_szu nx' szc frame frame_pre frame_post uend Sgap u_pre u_post u_c w' i'
    by auto
qed


lemmas wf_defs = well_formed_def free_blocks_def separated_def in_store_def block_end_def

text \<open>
  Claim C6. When the first block of the free list that is not too small is strictly
  bigger than the rounded request \<open>S\<close> (the blocks \<open>pre\<close> before it are too small, the
  block \<open>c\<close> is bigger), \<open>allocateMemory\<close> returns the payload of \<open>c\<close> and leaves a
  remainder block \<open>u\<close> that starts immediately after the allocated region, at offset
  \<open>S + 8\<close> inside the original block, has size \<open>originalSize - S - 8\<close>, inherits the
  successor link of \<open>c\<close> and takes the place of \<open>c\<close> in the free list, which stays well
  formed. The allocated block has size \<open>S\<close> and a cleared link.
\<close>

theorem allocateMemory_split:
  assumes s: "s = ensureInitialised P s0"
    and wf: "well_formed P s (pre @ c # post)"
    and S: "S = pad8 b"
    and small: "\<forall>p\<in>set pre. hsize s p < S"
    and big: "S < hsize s c"
    and u: "u = c + (S + sizeof_header_t)"
  shows "\<exists>s'. allocateMemory P s0 b = Some (c + sizeof_header_t, s')
           \<and> well_formed P s' (pre @ u # post)
           \<and> unat u = unat c + 8 + unat S
           \<and> hsize s' u = hsize s c - S - sizeof_header_t
           \<and> unat (hsize s' u) = unat (hsize s c) - unat S - 8
           \<and> hnext s' u = hnext s c
           \<and> hsize s' c = S \<and> hnext s' c = NULL
           \<and> (\<forall>p. p \<noteq> u \<and> p \<noteq> c \<longrightarrow> hsize s' p = hsize s p)"
  using allocateMemory_split_facts [OF assms] by blast

theorem allocateMemory_split_witness:
  "\<exists>s'. allocateMemory (page_provider 4) (boot \<lparr>pages = 1, grow_log = []\<rparr>) 100 = Some (16, s')
      \<and> well_formed (page_provider 4) s' [120]
      \<and> hsize s' 120 = 65408 \<and> hnext s' 120 = NULL \<and> hsize s' 8 = 104 \<and> hnext s' 8 = NULL"
proof -
  let ?P = "page_provider 4" and ?s0 = "boot \<lparr>pages = 1, grow_log = []\<rparr>"
  have wf: "well_formed ?P (ensureInitialised ?P ?s0) ([] @ 8 # [])"
    by (simp add: wf_defs eval_defs)
  have S: "pad8 100 = 104" by (simp add: pad8_def)
  have big: "pad8 100 < hsize (ensureInitialised ?P ?s0) 8"
    by (simp add: eval_defs)
  have small: "\<forall>p\<in>set []. hsize (ensureInitialised ?P ?s0) p < pad8 100" by simp
  have vals: "hsize (ensureInitialised ?P ?s0) 8 = 65520" "hnext (ensureInitialised ?P ?s0) 8 = NULL"
    by (simp_all add: eval_defs)
  from allocateMemory_split [OF refl wf refl small big refl]
  obtain s' where "allocateMemory ?P ?s0 100 = Some (8 + sizeof_header_t, s')"
    and "well_formed ?P s' ([] @ (8 + (pad8 100 + sizeof_header_t)) # [])"
    and "hsize s' (8 + (pad8 100 + sizeof_header_t))
           = hsize (ensureInitialised ?P ?s0) 8 - pad8 100 - sizeof_header_t"
    and "hnext s' (8 + (pad8 100 + sizeof_header_t)) = hnext (ensureInitialised ?P ?s0) 8"
    and "hsize s' 8 = pad8 100" and "hnext s' 8 = NULL"
    by blast
  then show ?thesis using vals S by (intro exI [of _ s']) simp
qed

subsection \<open>Inserting a block into the free list\<close>

lemma fl_seg_end:
  "fl_seg nx p (as @ bs) NULL \<Longrightarrow> fl_seg nx p as (if bs = [] then NULL else hd bs)"
  by (induction as arbitrary: p) (auto simp: neq_Nil_conv)

lemma fl_seg_tail:
  "fl_seg nx p (as @ bs) NULL \<Longrightarrow> fl_seg nx (if bs = [] then NULL else hd bs) bs NULL"
  by (induction as arbitrary: p) (auto simp: neq_Nil_conv)

lemma fl_seg_head: "fl_seg nx p as q \<Longrightarrow> as \<noteq> [] \<Longrightarrow> p = hd as \<and> p \<noteq> NULL"
  by (cases as) auto

lemma free_attach_current_path:
  assumes post: "fl_seg (hnext s) m post NULL" and m: "m = (if post = [] then NULL else hd post)"
    and x: "x \<notin> set post" and last: "post = [] \<longrightarrow> hnext s x = NULL"
    and ms: "ms = (post \<noteq> [] \<and> hd post = (x + sizeof_header_t) + hsize s x)"
    and s1: "s1 = free_attach_current s x m"
  shows "fl_seg (hnext s1) (hnext s1 x) (if ms then tl post else post) NULL
       \<and> (\<forall>p. p \<noteq> x \<longrightarrow> hnext s1 p = hnext s p)
       \<and> hsize s1 = (hsize s)(x := (if ms then hsize s x + (hsize s (hd post) + sizeof_header_t)
                                    else hsize s x))
       \<and> free_list s1 = free_list s \<and> world s1 = world s \<and> is_initialised s1 = is_initialised s"
proof (cases post)
  case Nil
  then show ?thesis using assms by (simp add: free_attach_current_def)
next
  case (Cons q qs)
  with post m have q: "m = q" "q \<noteq> NULL" and qs: "fl_seg (hnext s) (hnext s q) qs NULL" by simp_all
  have xq: "x \<noteq> q" "x \<notin> set qs" using x Cons by simp_all
  show ?thesis
  proof (cases ms)
    case True
    then have adj: "q = (x + sizeof_header_t) + hsize s x" using ms Cons by simp
    have "s1 = s\<lparr>hsize := (hsize s)(x := hsize s x + (hsize s q + sizeof_header_t)),
                 hnext := (hnext s)(x := hnext s q)\<rparr>"
      unfolding s1 q using q(2) adj by (simp add: free_attach_current_def Let_def)
    then show ?thesis using True Cons qs xq by (simp add: fl_seg_upd_notin)
  next
    case False
    then have adj: "q \<noteq> (x + sizeof_header_t) + hsize s x" using ms Cons by simp
    have "s1 = s\<lparr>hnext := (hnext s)(x := q)\<rparr>"
      unfolding s1 q using q(2) adj by (simp add: free_attach_current_def)
    then show ?thesis using False Cons qs q xq by (simp add: fl_seg_upd_notin)
  qed
qed

lemma free_attach_previous_path:
  assumes pre: "fl_seg (hnext s1) fl pre m" and fl: "free_list s1 = fl"
    and post: "fl_seg (hnext s1) (hnext s1 x) post' NULL"
    and x: "x \<noteq> NULL" "x \<notin> set pre" "x \<notin> set post'"
    and dist: "distinct pre" "set pre \<inter> set post' = {}"
    and prev: "prev = (if pre = [] then NULL else last pre)"
    and mp: "mp = (pre \<noteq> [] \<and> x = (last pre + sizeof_header_t) + hsize s1 (last pre))"
    and s2: "s2 = free_attach_previous s1 x prev"
  shows "free_blocks s2 ((if mp then pre else pre @ [x]) @ post')
       \<and> hsize s2 = (if mp then (hsize s1)(last pre := hsize s1 (last pre)
                                      + (hsize s1 x + sizeof_header_t))
                     else hsize s1)
       \<and> (\<forall>p. p \<notin> set pre \<longrightarrow> hnext s2 p = hnext s1 p)
       \<and> world s2 = world s1 \<and> is_initialised s2 = is_initialised s1"
proof (cases "pre = []")
  case True
  then have "s2 = s1\<lparr>free_list := x\<rparr>" using s2 prev by (simp add: free_attach_previous_def)
  then show ?thesis using True mp post x by (simp add: free_blocks_def)
next
  case False
  then have pv: "prev = last pre" "prev \<in> set pre" using prev by simp_all
  with pre have pv0: "prev \<noteq> NULL" using fl_seg_notnull by metis
  have pvx: "prev \<noteq> x" "prev \<notin> set post'" using pv x dist by auto
  show ?thesis
  proof (cases mp)
    case True
    then have adj: "x = (prev + sizeof_header_t) + hsize s1 prev" using mp pv by simp
    have s2': "s2 = s1\<lparr>hsize := (hsize s1)(prev := hsize s1 prev + (hsize s1 x + sizeof_header_t)),
                       hnext := (hnext s1)(prev := hnext s1 x)\<rparr>"
      unfolding s2 using pv0 adj by (simp add: free_attach_previous_def Let_def)
    have a: "fl_seg ((hnext s1)(prev := hnext s1 x)) fl pre (hnext s1 x)"
      unfolding pv using pre False dist by (intro fl_seg_last_upd) simp_all
    have b: "fl_seg ((hnext s1)(prev := hnext s1 x)) (hnext s1 x) post' NULL"
      using post pvx by (simp add: fl_seg_upd_notin)
    show ?thesis using True a b fl pv by (auto simp: s2' free_blocks_def fl_seg_append)
  next
    case False
    then have adj: "x \<noteq> (prev + sizeof_header_t) + hsize s1 prev"
      using mp pv \<open>pre \<noteq> []\<close> by simp
    have s2': "s2 = s1\<lparr>hnext := (hnext s1)(prev := x)\<rparr>"
      unfolding s2 using pv0 adj by (simp add: free_attach_previous_def)
    have a: "fl_seg ((hnext s1)(prev := x)) fl pre x"
      unfolding pv using pre \<open>pre \<noteq> []\<close> dist by (intro fl_seg_last_upd) simp_all
    have b: "fl_seg ((hnext s1)(prev := x)) (hnext s1 x) post' NULL"
      using post pvx by (simp add: fl_seg_upd_notin)
    have "fl_seg ((hnext s1)(prev := x)) x (x # post') NULL"
      using b x(1) pvx by simp
    with a have "fl_seg ((hnext s1)(prev := x)) fl ((pre @ [x]) @ post') NULL"
      by (auto simp: fl_seg_append)
    then show ?thesis using False fl pv by (simp add: s2' free_blocks_def)
  qed
qed


lemma fl_seg_cong:
  "\<forall>p\<in>set as. nx' p = nx p \<Longrightarrow> fl_seg nx' p as q = fl_seg nx p as q"
  by (induction as arbitrary: p) auto

lemma freeMemory_insert:
  assumes s: "s = ensureInitialised P s0"
    and path: "free_blocks s (pre @ post)"
    and dist: "distinct (pre @ post)"
    and lo: "\<forall>p\<in>set pre. p < x" and hi: "\<forall>q\<in>set post. x < q"
    and x: "x \<noteq> NULL" "x + sizeof_header_t \<noteq> NULL"
    and last: "post = [] \<longrightarrow> hnext s x = NULL"
    and ms: "ms = (post \<noteq> [] \<and> hd post = (x + sizeof_header_t) + hsize s x)"
    and mp: "mp = (pre \<noteq> [] \<and> x = (last pre + sizeof_header_t) + hsize s (last pre))"
    and X1: "X1 = (if ms then hsize s x + (hsize s (hd post) + sizeof_header_t) else hsize s x)"
  shows "\<exists>s'. freeMemory P s0 (x + sizeof_header_t) = Some s'
      \<and> free_blocks s' ((if mp then pre else pre @ [x]) @ (if ms then tl post else post))
      \<and> hsize s' = (if mp then (hsize s)(x := X1, last pre := hsize s (last pre)
                                                       + (X1 + sizeof_header_t))
                      else (hsize s)(x := X1))
      \<and> (\<forall>p. p \<noteq> x \<and> p \<notin> set pre \<longrightarrow> hnext s' p = hnext s p)
      \<and> world s' = world s \<and> is_initialised s' = is_initialised s"
proof (cases "pre @ post = []")
  case True
  then have e: "pre = []" "post = []" by simp_all
  with path have "free_list s = NULL" by (simp add: free_blocks_def)
  then have "freeMemory P s0 (x + sizeof_header_t) = Some (s\<lparr>free_list := x\<rparr>)"
    using x s by (simp add: freeMemory_def Let_def)
  then show ?thesis using e last x ms mp X1 by (simp add: free_blocks_def)
next
  case False
  define m where "m = (if post = [] then NULL else hd post)"
  define prev where "prev = (if pre = [] then NULL else last pre)"
  define post' where "post' = (if ms then tl post else post)"
  have xpre: "x \<notin> set pre" using lo by auto
  have xpost: "x \<notin> set post" using hi by auto
  have segpre: "fl_seg (hnext s) (free_list s) pre m"
    using path unfolding free_blocks_def m_def by (rule fl_seg_end)
  have segpost: "fl_seg (hnext s) m post NULL"
    using path unfolding free_blocks_def m_def by (rule fl_seg_tail)
  have head: "free_list s \<noteq> NULL"
    using path False fl_seg_head unfolding free_blocks_def by blast
  have mx: "m = NULL \<or> x < m" using hi by (auto simp: m_def)
  have loop: "free_loop s x (free_list s) (free_list s) = Some (m, prev)"
    unfolding prev_def using segpre head lo mx by (rule free_loop_path)
  define s1 where "s1 = free_attach_current s x m"
  define s2 where "s2 = free_attach_previous s1 x prev"
  have run: "freeMemory P s0 (x + sizeof_header_t) = Some s2"
    using x head loop s by (simp add: freeMemory_def Let_def s1_def s2_def)
  from free_attach_current_path [OF segpost m_def xpost last ms s1_def]
  have p1: "fl_seg (hnext s1) (hnext s1 x) post' NULL"
    and nx1: "\<forall>p. p \<noteq> x \<longrightarrow> hnext s1 p = hnext s p"
    and sz1: "hsize s1 = (hsize s)(x := X1)"
    and rest1: "free_list s1 = free_list s" "world s1 = world s"
               "is_initialised s1 = is_initialised s"
    unfolding post'_def X1 by simp_all
  have pre1: "fl_seg (hnext s1) (free_list s) pre m"
    using segpre nx1 xpre by (subst fl_seg_cong [of pre "hnext s1" "hnext s"]) auto
  have sub: "set post' \<subseteq> set post"
    unfolding post'_def by (cases post) auto
  have xpost': "x \<notin> set post'" using xpost sub by auto
  have d1: "distinct pre" and d2: "set pre \<inter> set post' = {}"
    using dist sub by auto
  have lastsz: "pre \<noteq> [] \<Longrightarrow> hsize s1 (last pre) = hsize s (last pre)"
    using xpre sz1 by (metis fun_upd_other last_in_set)
  have mp1: "mp = (pre \<noteq> [] \<and> x = (last pre + sizeof_header_t) + hsize s1 (last pre))"
    unfolding mp using lastsz by auto
  from free_attach_previous_path [OF pre1 rest1(1) p1 x(1) xpre xpost' d1 d2 prev_def mp1 s2_def]
  have p2: "free_blocks s2 ((if mp then pre else pre @ [x]) @ post')"
    and sz2: "hsize s2 = (if mp then (hsize s1)(last pre := hsize s1 (last pre)
                                       + (hsize s1 x + sizeof_header_t))
                          else hsize s1)"
    and nx2: "\<forall>p. p \<notin> set pre \<longrightarrow> hnext s2 p = hnext s1 p"
    and rest2: "world s2 = world s1" "is_initialised s2 = is_initialised s1"
    by simp_all
  have nx: "\<forall>p. p \<noteq> x \<and> p \<notin> set pre \<longrightarrow> hnext s2 p = hnext s p"
    using nx1 nx2 by simp
  have sz: "hsize s2 = (if mp then (hsize s)(x := X1, last pre := hsize s (last pre)
                                                       + (X1 + sizeof_header_t))
                      else (hsize s)(x := X1))"
  proof (cases mp)
    case True
    then have "pre \<noteq> []" using mp by simp
    then show ?thesis using True sz2 lastsz by (simp add: sz1)
  next
    case False
    then show ?thesis using sz2 sz1 by simp
  qed
  show ?thesis using run p2 sz nx rest1 rest2 unfolding post'_def by simp
qed

subsection \<open>Exact match inside the list\<close>

text \<open>
  The interior exact match (lines 98 to 104) unlinks the matched block only: the free
  list keeps every other block, in order, and no size changes.
\<close>

lemma allocateMemory_exact_interior:
  assumes s: "s = ensureInitialised P s0"
    and path: "free_blocks s (pre @ c # post)" and dist: "distinct (pre @ c # post)"
    and ne: "pre \<noteq> []"
    and small: "\<forall>p\<in>set pre. hsize s p < pad8 b"
    and exact: "hsize s c = pad8 b"
  shows "\<exists>s'. allocateMemory P s0 b = Some (c + sizeof_header_t, s')
       \<and> free_blocks s' (pre @ post) \<and> hsize s' = hsize s \<and> hnext s' c = NULL
       \<and> world s' = world s \<and> is_initialised s' = is_initialised s"
proof -
  define prev where "prev = last pre"
  from path obtain m where seg1: "fl_seg (hnext s) (free_list s) pre m"
    and seg2: "fl_seg (hnext s) m (c # post) NULL"
    unfolding free_blocks_def fl_seg_append by blast
  then have pre: "fl_seg (hnext s) (free_list s) pre c" and c0: "c \<noteq> NULL"
    and post: "fl_seg (hnext s) (hnext s c) post NULL" by simp_all
  have head: "free_list s \<noteq> NULL" "free_list s = hd pre"
    using fl_seg_head [OF pre ne] by auto
  have "hd pre \<in> set pre" using ne by simp
  then have hc: "free_list s \<noteq> c" using head(2) dist by auto
  have prev_in: "prev \<in> set pre" using ne by (simp add: prev_def)
  have pv: "prev \<noteq> c" "prev \<notin> set post" "c \<notin> set pre" "c \<notin> set post"
    using prev_in dist by auto
  define nx where "nx = (hnext s)(prev := hnext s c, c := NULL)"
  have "fl_seg ((hnext s)(prev := hnext s c)) (free_list s) pre (hnext s c)"
    unfolding prev_def using pre ne dist by (intro fl_seg_last_upd) simp_all
  then have a: "fl_seg nx (free_list s) pre (hnext s c)"
    unfolding nx_def using pv by (simp add: fl_seg_upd_notin)
  have b: "fl_seg nx (hnext s c) post NULL"
    unfolding nx_def using post pv by (simp add: fl_seg_upd_notin)
  have path': "fl_seg nx (free_list s) (pre @ post) NULL"
    using a b by (auto simp: fl_seg_append)
  have skip: "alloc_loop s (pad8 b) (pad8 b + sizeof_header_t) (free_list s) (free_list s)
        = alloc_loop s (pad8 b) (pad8 b + sizeof_header_t) c prev"
    using alloc_loop_skip [OF pre small] ne by (simp add: prev_def)
  have "alloc_loop s (pad8 b) (pad8 b + sizeof_header_t) c prev
          = Some (Some (c + sizeof_header_t), s\<lparr>hnext := nx\<rparr>)"
    using c0 exact hc unfolding nx_def by (subst alloc_loop.simps) (simp add: Let_def)
  then have "allocateMemory P s0 b = Some (c + sizeof_header_t, s\<lparr>hnext := nx\<rparr>)"
    using skip allocateMemory_found [OF s head(1)] by simp
  moreover have "nx c = NULL" by (simp add: nx_def)
  ultimately show ?thesis using path' by (simp add: free_blocks_def)
qed

subsection \<open>Freeing a block keeps the free list well formed\<close>

lemma in_store_end:
  assumes "in_store P s x"
  shows "unat ((x + sizeof_header_t) + hsize s x) = block_end s x"
    and "unat (x + sizeof_header_t) = unat x + 8"
    and "block_end s x < 2 ^ 32"
proof -
  have "unat (memoryBytesLength P (world s)) < 2 ^ 32"
    using unsigned_less [of "memoryBytesLength P (world s)"] by simp
  then show b: "block_end s x < 2 ^ 32" using assms by (simp add: in_store_def)
  then have "unat x + 8 < 2 ^ 32" by (simp add: block_end_def)
  then show x8: "unat (x + sizeof_header_t) = unat x + 8"
    by (simp add: unat_word_ariths)
  show "unat ((x + sizeof_header_t) + hsize s x) = block_end s x"
    using b x8 by (simp add: unat_word_ariths(1) block_end_def)
qed

lemma in_store_adjacent:
  assumes "in_store P s x"
  shows "(q = (x + sizeof_header_t) + hsize s x) = (unat q = block_end s x)"
  using in_store_end(1) [OF assms] by (metis word_unat_eq_iff)

lemma in_store_notnull:
  assumes "in_store P s x"
  shows "x \<noteq> NULL" and "x + sizeof_header_t \<noteq> NULL"
proof -
  show "x \<noteq> NULL" using assms by (auto simp: in_store_def)
  have "unat (x + sizeof_header_t) \<noteq> 0" using in_store_end(2) [OF assms] by simp
  then show "x + sizeof_header_t \<noteq> NULL" by auto
qed

lemma merged_size:
  fixes X Q :: "32 word"
  assumes "unat X + unat Q + 8 < 2 ^ 32"
  shows "unat (X + (Q + sizeof_header_t)) = unat X + unat Q + 8"
proof -
  have "unat (Q + sizeof_header_t) = unat Q + 8"
    using assms by (simp add: unat_word_ariths)
  then show ?thesis using assms by (simp add: unat_word_ariths(1))
qed


lemma separated_insert:
  assumes "separated s as" and "separated s bs"
    and "\<forall>p\<in>set as. block_end s p < unat y"
    and "\<forall>q\<in>set bs. block_end s y < unat q"
  shows "separated s (as @ y # bs)"
proof -
  have "block_end s p < unat q" if "p \<in> set as" "q \<in> set bs" for p q
  proof -
    have "block_end s p < unat y" using assms(3) that(1) by simp
    also have "unat y < block_end s y" by (rule block_end_gt)
    also have "block_end s y < unat q" using assms(4) that(2) by simp
    finally show ?thesis .
  qed
  then show ?thesis using assms by (simp add: separated_append separated_Cons)
qed

lemma separated_last:
  assumes "separated s pre" and "p \<in> set (butlast pre)"
  shows "block_end s p < unat (last pre)"
proof -
  from assms(2) have ne: "pre \<noteq> []" by auto
  then have "pre = butlast pre @ [last pre]" by simp
  then have "separated s (butlast pre @ [last pre])" using assms(1) by simp
  then show ?thesis using assms(2) by (simp add: separated_append)
qed

lemma separated_hd:
  assumes "separated s post" and "q \<in> set (tl post)"
  shows "block_end s (hd post) < unat q"
  using assms by (cases post) (simp_all add: separated_Cons)

lemma separated_tl: "separated s post \<Longrightarrow> separated s (tl post)"
  by (cases post) (simp_all add: separated_Cons)

lemma separated_butlast: "separated s pre \<Longrightarrow> separated s (butlast pre)"
proof (cases "pre = []")
  case True
  then show ?thesis by (simp add: separated_def)
next
  case False
  assume "separated s pre"
  then have "separated s (butlast pre @ [last pre])" using False by simp
  then show ?thesis by (simp add: separated_append)
qed

lemma mod8_add: "(a::nat) mod 8 = 0 \<Longrightarrow> b mod 8 = 0 \<Longrightarrow> (a + b) mod 8 = 0"
  by (simp add: mod_eq_0_iff_dvd)

text \<open>The block at \<open>x\<close> after the merge with its successor, if they are adjacent.\<close>

lemma succ_merge_facts:
  assumes sep: "separated s post" and store: "\<forall>q\<in>set post. in_store P s q"
    and xs: "in_store P s x"
    and hi: "\<forall>q\<in>set post. block_end s x \<le> unat q"
    and ms: "ms = (post \<noteq> [] \<and> unat (hd post) = block_end s x)"
    and X1: "X1 = (if ms then hsize s x + (hsize s (hd post) + sizeof_header_t) else hsize s x)"
    and E: "E = (if ms then block_end s (hd post) else block_end s x)"
  shows "unat x + 8 + unat X1 = E"
    and "E \<le> unat (memoryBytesLength P (world s))"
    and "unat X1 mod 8 = 0"
    and "\<forall>q\<in>set (if ms then tl post else post). E < unat q"
proof -
  have len: "unat (memoryBytesLength P (world s)) < 2 ^ 32"
    using unsigned_less [of "memoryBytesLength P (world s)"] by simp
  show size: "unat x + 8 + unat X1 = E"
  proof (cases ms)
    case True
    then have hd: "hd post \<in> set post" and adj: "unat (hd post) = block_end s x"
      using ms by simp_all
    then have "block_end s (hd post) \<le> unat (memoryBytesLength P (world s))"
      using store by (simp add: in_store_def)
    then have "unat (hsize s x) + unat (hsize s (hd post)) + 8 < 2 ^ 32"
      using len adj by (simp add: block_end_def)
    then have "unat X1 = unat (hsize s x) + unat (hsize s (hd post)) + 8"
      using True X1 by (simp add: merged_size)
    then show ?thesis using True E adj by (simp add: block_end_def)
  next
    case False
    then show ?thesis using X1 E by (simp add: block_end_def)
  qed
  show "E \<le> unat (memoryBytesLength P (world s))"
  proof (cases ms)
    case True
    then have "hd post \<in> set post" using ms by simp
    then show ?thesis using True E store by (simp add: in_store_def)
  next
    case False
    then show ?thesis using E xs by (simp add: in_store_def)
  qed
  show "unat X1 mod 8 = 0"
  proof (cases ms)
    case True
    then have hd: "hd post \<in> set post" and adj: "unat (hd post) = block_end s x"
      using ms by simp_all
    have a: "unat (hsize s x) mod 8 = 0" using xs by (simp add: in_store_def)
    have b: "unat (hsize s (hd post)) mod 8 = 0" using store hd by (simp add: in_store_def)
    have "unat X1 = E - unat x - 8" using size by simp
    also have "\<dots> = unat (hsize s x) + (unat (hsize s (hd post)) + 8)"
      using True E adj by (simp add: block_end_def)
    finally show ?thesis using a b by (simp add: mod8_add)
  next
    case False
    then show ?thesis using X1 xs by (simp add: in_store_def)
  qed
  show "\<forall>q\<in>set (if ms then tl post else post). E < unat q"
  proof (cases ms)
    case True
    then show ?thesis using E sep separated_hd by auto
  next
    case False
    show ?thesis
    proof (cases post)
      case Nil
      then show ?thesis by simp
    next
      case (Cons h t)
      have h: "block_end s x < unat h"
        using False ms hi Cons by (simp add: order_less_le)
      have "block_end s x < unat q" if "q \<in> set t" for q
      proof -
        have "block_end s h < unat q" using sep Cons that by (simp add: separated_Cons)
        then show ?thesis using h block_end_gt [of h s] by linarith
      qed
      then show ?thesis using False E Cons h by auto
    qed
  qed
qed


lemma set_butlast_last: "xs \<noteq> [] \<Longrightarrow> set xs = insert (last xs) (set (butlast xs))"
  by (induction xs) auto

lemma last_notin_butlast: "distinct xs \<Longrightarrow> xs \<noteq> [] \<Longrightarrow> last xs \<notin> set (butlast xs)"
  by (induction xs) (auto dest: in_set_butlastD)

lemma freeMemory_well_formed:
  assumes s: "s = ensureInitialised P s0"
    and wf: "well_formed P s (pre @ post)"
    and xs: "in_store P s x"
    and lo: "\<forall>p\<in>set pre. block_end s p \<le> unat x"
    and hi: "\<forall>q\<in>set post. block_end s x \<le> unat q"
    and last: "post = [] \<longrightarrow> hnext s x = NULL"
    and ms: "ms = (post \<noteq> [] \<and> unat (hd post) = block_end s x)"
    and mp: "mp = (pre \<noteq> [] \<and> unat x = block_end s (last pre))"
    and y: "y = (if mp then last pre else x)"
    and E: "E = (if ms then block_end s (hd post) else block_end s x)"
  shows "\<exists>s'. freeMemory P s0 (x + sizeof_header_t) = Some s'
      \<and> well_formed P s' ((if mp then butlast pre else pre) @ y # (if ms then tl post else post))
      \<and> block_end s' y = E
      \<and> (\<forall>p. p \<noteq> x \<and> p \<noteq> y \<longrightarrow> hsize s' p = hsize s p)
      \<and> (\<forall>p. p \<noteq> x \<and> p \<notin> set pre \<longrightarrow> hnext s' p = hnext s p)
      \<and> world s' = world s \<and> is_initialised s' = is_initialised s"
proof -
  define post' where "post' = (if ms then tl post else post)"
  define X1 where "X1 = (if ms then hsize s x + (hsize s (hd post) + sizeof_header_t)
                         else hsize s x)"
  from wf have path: "free_blocks s (pre @ post)" and sep: "separated s (pre @ post)"
    and store: "\<forall>p\<in>set (pre @ post). in_store P s p"
    by (simp_all add: well_formed_def)
  have dist: "distinct (pre @ post)" using sep by (rule separated_distinct)
  have seppre: "separated s pre" and seppost: "separated s post"
    and cross: "\<forall>p\<in>set pre. \<forall>q\<in>set post. block_end s p < unat q"
    using sep by (simp_all add: separated_append)
  have storepost: "\<forall>q\<in>set post. in_store P s q" using store by simp
  have low: "\<forall>p\<in>set pre. p < x"
  proof
    fix p assume "p \<in> set pre"
    then have "block_end s p \<le> unat x" using lo by simp
    then show "p < x" using block_end_gt [of p s] by (simp add: word_less_nat_alt)
  qed
  have hiw: "\<forall>q\<in>set post. x < q"
  proof
    fix q assume "q \<in> set post"
    then have "block_end s x \<le> unat q" using hi by simp
    then show "x < q" using block_end_gt [of x s] by (simp add: word_less_nat_alt)
  qed
  have xpre: "x \<notin> set pre" using low by auto
  have xpost: "x \<notin> set post" using hiw by auto
  have msw: "ms = (post \<noteq> [] \<and> hd post = (x + sizeof_header_t) + hsize s x)"
    unfolding ms using in_store_adjacent [OF xs] by simp
  have mpw: "mp = (pre \<noteq> [] \<and> x = (last pre + sizeof_header_t) + hsize s (last pre))"
  proof (cases "pre = []")
    case True
    then show ?thesis using mp by simp
  next
    case False
    then have "in_store P s (last pre)" using store by simp
    then show ?thesis unfolding mp using in_store_adjacent by blast
  qed
  from freeMemory_insert [OF s path dist low hiw in_store_notnull [OF xs] last msw mpw X1_def]
  obtain s' where run: "freeMemory P s0 (x + sizeof_header_t) = Some s'"
    and path': "free_blocks s' ((if mp then pre else pre @ [x]) @ post')"
    and sz': "hsize s' = (if mp then (hsize s)(x := X1, last pre := hsize s (last pre)
                                                          + (X1 + sizeof_header_t))
                         else (hsize s)(x := X1))"
    and nx': "\<forall>p. p \<noteq> x \<and> p \<notin> set pre \<longrightarrow> hnext s' p = hnext s p"
    and w': "world s' = world s" and i': "is_initialised s' = is_initialised s"
    unfolding post'_def by blast
  from succ_merge_facts [OF seppost storepost xs hi ms X1_def E]
  have X1E: "unat x + 8 + unat X1 = E"
    and Elen: "E \<le> unat (memoryBytesLength P (world s))"
    and X1mod: "unat X1 mod 8 = 0"
    and Epost: "\<forall>q\<in>set post'. E < unat q"
    unfolding post'_def by simp_all
  have sub: "set post' \<subseteq> set post" unfolding post'_def by (cases post) auto
  have xpost': "x \<notin> set post'" using xpost sub by auto
  have seppost': "separated s post'"
    unfolding post'_def using seppost by (simp add: separated_tl)
  have len: "unat (memoryBytesLength P (world s)) < 2 ^ 32"
    using unsigned_less [of "memoryBytesLength P (world s)"] by simp
  have x8: "8 \<le> unat x" using xs by (simp add: in_store_def)
  show ?thesis
  proof (cases mp)
    case False
    then have yx: "y = x" using y by simp
    have szx: "hsize s' = (hsize s)(x := X1)" using False sz' by simp
    have same: "hsize s' p = hsize s p" if "p \<noteq> x" for p using that szx by simp
    have endx: "block_end s' x = E" using X1E by (simp add: block_end_def szx)
    have samepre: "\<forall>p\<in>set pre. hsize s' p = hsize s p" using xpre same by metis
    have samepost: "\<forall>p\<in>set post'. hsize s' p = hsize s p" using xpost' same by metis
    have sp: "separated s' pre" using seppre samepre by (simp add: separated_cong [of pre s' s])
    have sq: "separated s' post'" using seppost' samepost by (simp add: separated_cong [of post' s' s])
    have before: "\<forall>p\<in>set pre. block_end s' p < unat x"
    proof
      fix p assume p: "p \<in> set pre"
      then have ne: "pre \<noteq> []" by auto
      have eq: "block_end s' p = block_end s p" using samepre p by (simp add: block_end_def)
      have "block_end s p < unat x"
      proof (cases "p = last pre")
        case True
        then have "block_end s p \<noteq> unat x" using False mp ne by auto
        then show ?thesis using lo p by (simp add: order_less_le)
      next
        case False
        then have "p \<in> set (butlast pre)" using p set_butlast_last [OF ne] by simp
        then have "block_end s p < unat (last pre)" by (rule separated_last [OF seppre])
        also have "\<dots> < block_end s (last pre)" by (rule block_end_gt)
        also have "\<dots> \<le> unat x" using lo ne by simp
        finally show ?thesis .
      qed
      then show "block_end s' p < unat x" using eq by simp
    qed
    have after: "\<forall>q\<in>set post'. block_end s' x < unat q" using Epost endx by simp
    have sep': "separated s' (pre @ x # post')"
      using sp sq before after by (rule separated_insert)
    have storex: "in_store P s' x"
      using x8 endx Elen X1mod w' by (simp add: in_store_def szx)
    have storeall: "\<forall>p\<in>set (pre @ x # post'). in_store P s' p"
    proof
      fix p assume "p \<in> set (pre @ x # post')"
      then consider "p = x" | "p \<in> set pre" | "p \<in> set post'" by auto
      then show "in_store P s' p"
      proof cases
        case 1
        then show ?thesis using storex by simp
      next
        case 2
        then have "in_store P s p" using store by simp
        then show ?thesis using samepre 2 w' by (simp add: in_store_cong [of s' p s])
      next
        case 3
        then have "in_store P s p" using store sub by auto
        then show ?thesis using samepost 3 w' by (simp add: in_store_cong [of s' p s])
      qed
    qed
    have "well_formed P s' (pre @ x # post')"
      using path' False sep' storeall by (simp add: well_formed_def)
    then show ?thesis
      using run False yx endx same nx' w' i' unfolding post'_def by auto
  next
    case True
    then have ne: "pre \<noteq> []" and adj: "unat x = block_end s (last pre)" using mp by simp_all
    define lp where "lp = last pre"
    have ylp: "y = lp" using True y lp_def by simp
    have pre_eq: "pre = butlast pre @ [lp]" using ne lp_def by simp
    have lpin: "lp \<in> set pre" using ne lp_def by simp
    have lpx: "lp \<noteq> x" using xpre lpin by auto
    have lpbut: "lp \<notin> set (butlast pre)"
      unfolding lp_def using dist ne by (intro last_notin_butlast) simp_all
    have lppost: "lp \<notin> set post'" using dist lpin sub by auto
    have szl: "hsize s' = (hsize s)(x := X1, lp := hsize s lp + (X1 + sizeof_header_t))"
      using True sz' lp_def by simp
    have same: "hsize s' p = hsize s p" if "p \<noteq> x" "p \<noteq> lp" for p using that szl by simp
    have bound: "unat (hsize s lp) + unat X1 + 8 < 2 ^ 32"
      using adj X1E Elen len unfolding lp_def block_end_def by linarith
    have newsz: "unat (hsize s' lp) = unat (hsize s lp) + unat X1 + 8"
      using bound by (simp add: szl merged_size)
    have endl: "block_end s' lp = E"
      using newsz adj X1E unfolding lp_def block_end_def by linarith
    have samebut: "\<forall>p\<in>set (butlast pre). hsize s' p = hsize s p"
    proof
      fix p assume p: "p \<in> set (butlast pre)"
      then have "p \<in> set pre" by (rule in_set_butlastD)
      then have "p \<noteq> x" using xpre by auto
      moreover have "p \<noteq> lp" using p lpbut by auto
      ultimately show "hsize s' p = hsize s p" by (rule same)
    qed
    have samepost: "\<forall>p\<in>set post'. hsize s' p = hsize s p"
    proof
      fix p assume p: "p \<in> set post'"
      then have "p \<noteq> x" "p \<noteq> lp" using xpost' lppost by auto
      then show "hsize s' p = hsize s p" by (rule same)
    qed
    have sb: "separated s' (butlast pre)"
      using seppre samebut by (simp add: separated_butlast separated_cong [of "butlast pre" s' s])
    have sq: "separated s' post'"
      using seppost' samepost by (simp add: separated_cong [of post' s' s])
    have before: "\<forall>p\<in>set (butlast pre). block_end s' p < unat lp"
    proof
      fix p assume p: "p \<in> set (butlast pre)"
      then have "block_end s p < unat lp" unfolding lp_def using seppre separated_last by blast
      then show "block_end s' p < unat lp" using samebut p by (simp add: block_end_def)
    qed
    have after: "\<forall>q\<in>set post'. block_end s' lp < unat q" using Epost endl by simp
    have sep': "separated s' (butlast pre @ lp # post')"
      using sb sq before after by (rule separated_insert)
    have lpstore: "in_store P s lp" using store lpin by simp
    have lpmod: "unat (hsize s' lp) mod 8 = 0"
    proof -
      have "unat (hsize s lp) mod 8 = 0" using lpstore by (simp add: in_store_def)
      moreover have "(unat X1 + 8) mod 8 = 0" using X1mod by simp
      ultimately have "(unat (hsize s lp) + (unat X1 + 8)) mod 8 = 0" by (rule mod8_add)
      then show ?thesis using newsz by (simp add: add.assoc)
    qed
    have storel: "in_store P s' lp"
      using lpstore endl Elen lpmod w' by (simp add: in_store_def)
    have storeall: "\<forall>p\<in>set (butlast pre @ lp # post'). in_store P s' p"
    proof
      fix p assume "p \<in> set (butlast pre @ lp # post')"
      then consider "p = lp" | "p \<in> set (butlast pre)" | "p \<in> set post'" by auto
      then show "in_store P s' p"
      proof cases
        case 1
        then show ?thesis using storel by simp
      next
        case 2
        then have "in_store P s p" using store by (auto dest: in_set_butlastD)
        then show ?thesis using samebut 2 w' by (simp add: in_store_cong [of s' p s])
      next
        case 3
        then have "in_store P s p" using store sub by auto
        then show ?thesis using samepost 3 w' by (simp add: in_store_cong [of s' p s])
      qed
    qed
    have "butlast pre @ lp # post' = (butlast pre @ [last pre]) @ post'"
      by (simp add: lp_def)
    also have "\<dots> = pre @ post'" using ne by simp
    finally have eq: "butlast pre @ lp # post' = pre @ post'" .
    have "free_blocks s' (pre @ post')" using path' True by simp
    then have "free_blocks s' (butlast pre @ lp # post')" by (simp only: eq)
    then have "well_formed P s' (butlast pre @ lp # post')"
      using sep' storeall by (simp add: well_formed_def)
    then show ?thesis
      using run True ylp endl same nx' w' i' unfolding post'_def by auto
  qed
qed

subsection \<open>The reported total\<close>

lemma unat_sum_list:
  fixes f :: "addr \<Rightarrow> 32 word"
  assumes "(\<Sum>p\<leftarrow>ps. unat (f p)) < 2 ^ 32"
  shows "unat (sum_list (map f ps)) = (\<Sum>p\<leftarrow>ps. unat (f p))"
  using assms
proof (induction ps)
  case Nil
  then show ?case by simp
next
  case (Cons a ps)
  then have "unat (sum_list (map f ps)) = (\<Sum>p\<leftarrow>ps. unat (f p))" by simp
  then show ?case using Cons.prems by (simp add: unat_word_ariths(1))
qed

lemma separated_sum_bound:
  assumes "separated s ps" and "\<forall>p\<in>set ps. lo \<le> unat p \<and> block_end s p \<le> L" and "lo \<le> L"
  shows "lo + (\<Sum>p\<leftarrow>ps. unat (hsize s p) + 8) \<le> L"
  using assms
proof (induction ps arbitrary: lo)
  case Nil
  then show ?case by simp
next
  case (Cons a ps)
  have sep: "separated s ps" and gt: "\<forall>q\<in>set ps. block_end s a < unat q"
    using Cons.prems(1) by (simp_all add: separated_Cons)
  have a: "lo \<le> unat a" "block_end s a \<le> L" using Cons.prems(2) by simp_all
  have "\<forall>p\<in>set ps. block_end s a \<le> unat p \<and> block_end s p \<le> L"
    using gt Cons.prems(2) by (simp add: order_less_imp_le)
  from Cons.IH [OF sep this a(2)]
  have "block_end s a + (\<Sum>p\<leftarrow>ps. unat (hsize s p) + 8) \<le> L" .
  then show ?case using a(1) by (simp add: block_end_def)
qed

lemma reportFreeMemory_well_formed:
  assumes s: "s = ensureInitialised P s0" and wf: "well_formed P s ps"
  shows "reportFreeMemory P s0 = Some (free_bytes s ps, s)"
proof -
  from wf have path: "fl_seg (hnext s) (free_list s) ps NULL" and sep: "separated s ps"
    and store: "\<forall>p\<in>set ps. in_store P s p"
    by (simp_all add: well_formed_def free_blocks_def)
  let ?L = "unat (memoryBytesLength P (world s))"
  have "\<forall>p\<in>set ps. 0 \<le> unat p \<and> block_end s p \<le> ?L"
    using store by (simp add: in_store_def)
  from separated_sum_bound [OF sep this]
  have b: "(\<Sum>p\<leftarrow>ps. unat (hsize s p) + 8) \<le> ?L" by simp
  have "(\<Sum>p\<leftarrow>ps. unat (hsize s p)) \<le> (\<Sum>p\<leftarrow>ps. unat (hsize s p) + 8)"
    by (rule sum_list_mono) simp
  moreover have "?L < 2 ^ 32" using unsigned_less [of "memoryBytesLength P (world s)"] by simp
  ultimately have "(\<Sum>p\<leftarrow>ps. unat (hsize s p)) < 2 ^ 32" using b by linarith
  then have u: "unat (sum_list (map (hsize s) ps)) = free_bytes s ps"
    unfolding free_bytes_def by (rule unat_sum_list)
  have loop: "report_loop s (free_list s) 0 = Some (sum_list (map (hsize s) ps))"
    using report_loop_path [OF path, of 0] by simp
  show ?thesis
  proof (cases "free_list s = NULL")
    case True
    with path have "ps = []" by (cases ps) auto
    then show ?thesis using True s by (simp add: reportFreeMemory_def free_bytes_def Let_def)
  next
    case False
    then show ?thesis using loop u s by (simp add: reportFreeMemory_def Let_def)
  qed
qed

subsection \<open>Accounting of the free bytes\<close>

lemma ensureInitialised_initialised: "is_initialised (ensureInitialised P s0) \<noteq> 0"
  by (simp add: ensureInitialised_def Let_def)

lemma free_bytes_append: "free_bytes s (as @ bs) = free_bytes s as + free_bytes s bs"
  by (simp add: free_bytes_def)

lemma free_bytes_Cons: "free_bytes s (a # as) = unat (hsize s a) + free_bytes s as"
  by (simp add: free_bytes_def)

lemma free_bytes_cong:
  "\<forall>p\<in>set ps. hsize s' p = hsize s p \<Longrightarrow> free_bytes s' ps = free_bytes s ps"
  unfolding free_bytes_def by (induction ps) simp_all

lemma allocateMemory_split_then_free:
  assumes s: "s = ensureInitialised P s0"
    and wf: "well_formed P s (pre @ c # post)"
    and S: "S = pad8 b"
    and small: "\<forall>p\<in>set pre. hsize s p < S"
    and big: "S < hsize s c"
  shows "\<exists>s1 s2. allocateMemory P s0 b = Some (c + sizeof_header_t, s1)
       \<and> well_formed P s1 (pre @ (c + (S + sizeof_header_t)) # post)
       \<and> free_bytes s1 (pre @ (c + (S + sizeof_header_t)) # post) + (unat S + 8)
           = free_bytes s (pre @ c # post)
       \<and> is_initialised s1 \<noteq> 0
       \<and> freeMemory P s1 (c + sizeof_header_t) = Some s2
       \<and> well_formed P s2 (pre @ c # post)
       \<and> free_bytes s2 (pre @ c # post) = free_bytes s (pre @ c # post)
       \<and> is_initialised s2 \<noteq> 0"
proof -
  define u where "u = c + (S + sizeof_header_t)"
  from allocateMemory_split_facts [OF s wf S small big u_def]
  obtain s1 where run1: "allocateMemory P s0 b = Some (c + sizeof_header_t, s1)"
    and wf1: "well_formed P s1 (pre @ u # post)"
    and uu: "unat u = unat c + 8 + unat S"
    and szu: "unat (hsize s1 u) = unat (hsize s c) - unat S - 8"
    and szc: "hsize s1 c = S" and nxc: "hnext s1 c = NULL"
    and same1: "\<forall>p\<in>set pre \<union> set post. hsize s1 p = hsize s p"
    and uend: "block_end s1 u = block_end s c"
    and Sgap: "unat S + 8 \<le> unat (hsize s c)"
    and w1: "world s1 = world s" and i1: "is_initialised s1 = is_initialised s"
    by blast
  have init1: "is_initialised s1 \<noteq> 0" using i1 s ensureInitialised_initialised by metis
  then have e1: "s1 = ensureInitialised P s1" by (simp add: ensureInitialised_done)
  have samepre: "\<forall>p\<in>set pre. hsize s1 p = hsize s p"
    and samepost: "\<forall>p\<in>set post. hsize s1 p = hsize s p" using same1 by simp_all
  have bytes1: "free_bytes s1 (pre @ u # post) + (unat S + 8) = free_bytes s (pre @ c # post)"
    using samepre samepost szu Sgap
    by (simp add: free_bytes_append free_bytes_Cons free_bytes_cong [of pre s1 s]
        free_bytes_cong [of post s1 s])
  from wf have sep: "separated s (pre @ c # post)"
    and store: "\<forall>p\<in>set (pre @ c # post). in_store P s p"
    by (simp_all add: well_formed_def)
  have cstore: "in_store P s c" using store by simp
  have cend1: "block_end s1 c = unat u" using uu szc by (simp add: block_end_def)
  have "unat u < block_end s1 u" by (rule block_end_gt)
  then have "block_end s1 c \<le> unat (memoryBytesLength P (world s1))"
    using cend1 uend cstore w1 by (simp add: in_store_def)
  then have xs: "in_store P s1 c"
    using cstore pad8_mod8 [of b] szc S by (simp add: in_store_def)
  have lo: "\<forall>p\<in>set pre. block_end s1 p \<le> unat c"
  proof
    fix p assume p: "p \<in> set pre"
    then have "block_end s p < unat c" using sep by (simp add: separated_append)
    then show "block_end s1 p \<le> unat c" using samepre p by (simp add: block_end_def)
  qed
  have hi: "\<forall>q\<in>set (u # post). block_end s1 c \<le> unat q"
  proof
    fix q assume "q \<in> set (u # post)"
    then consider "q = u" | "q \<in> set post" by auto
    then show "block_end s1 c \<le> unat q"
    proof cases
      case 1
      then show ?thesis using cend1 by simp
    next
      case 2
      then have "block_end s c < unat q" using sep by (simp add: separated_append separated_Cons)
      then show ?thesis using cend1 uend block_end_gt [of u s1] by linarith
    qed
  qed
  have last: "u # post = [] \<longrightarrow> hnext s1 c = NULL" by simp
  have ms: "True = (u # post \<noteq> [] \<and> unat (hd (u # post)) = block_end s1 c)"
    using cend1 by simp
  have mp: "False = (pre \<noteq> [] \<and> unat c = block_end s1 (last pre))"
  proof (cases "pre = []")
    case True
    then show ?thesis by simp
  next
    case False
    then have l: "last pre \<in> set pre" by simp
    then have "block_end s (last pre) < unat c" using sep by (simp add: separated_append)
    then have "block_end s1 (last pre) < unat c" using samepre l by (simp add: block_end_def)
    then show ?thesis by simp
  qed
  have y: "c = (if False then last pre else c)" by simp
  have E: "block_end s c = (if True then block_end s1 (hd (u # post)) else block_end s1 c)"
    using uend by simp
  from freeMemory_well_formed [OF e1 wf1 xs lo hi last ms mp y E]
  obtain s2 where run2: "freeMemory P s1 (c + sizeof_header_t) = Some s2"
    and wf2: "well_formed P s2 (pre @ c # post)"
    and cend2: "block_end s2 c = block_end s c"
    and same2: "\<forall>p. p \<noteq> c \<longrightarrow> hsize s2 p = hsize s1 p"
    and i2: "is_initialised s2 = is_initialised s1"
    by auto
  have dist: "distinct (pre @ c # post)" using sep by (rule separated_distinct)
  have szc2: "unat (hsize s2 c) = unat (hsize s c)" using cend2 by (simp add: block_end_def)
  have pre2: "\<forall>p\<in>set pre. hsize s2 p = hsize s p"
  proof
    fix p assume p: "p \<in> set pre"
    then have "p \<noteq> c" using dist by auto
    then show "hsize s2 p = hsize s p" using same2 samepre p by simp
  qed
  have post2: "\<forall>p\<in>set post. hsize s2 p = hsize s p"
  proof
    fix p assume p: "p \<in> set post"
    then have "p \<noteq> c" using dist by auto
    then show "hsize s2 p = hsize s p" using same2 samepost p by simp
  qed
  have bytes2: "free_bytes s2 (pre @ c # post) = free_bytes s (pre @ c # post)"
    using pre2 post2 szc2
    by (simp add: free_bytes_append free_bytes_Cons free_bytes_cong [of pre s2 s]
        free_bytes_cong [of post s2 s])
  show ?thesis
    using run1 wf1 bytes1 init1 run2 wf2 bytes2 i2 unfolding u_def by auto
qed


text \<open>
  Claim C3, as amended. When the call is satisfied by splitting a block of a well-formed
  free list (the first block that is not too small is strictly bigger than the rounded
  request \<open>S\<close>), the total of \<open>reportFreeMemory\<close> drops by exactly \<open>S + 8\<close>, and
  \<open>freeMemory\<close> of the returned pointer, with no operation in between, brings it back to
  its value before the call.
\<close>

theorem allocateMemory_split_accounting:
  assumes s: "s = ensureInitialised P s0"
    and wf: "well_formed P s (pre @ c # post)"
    and S: "S = pad8 b"
    and small: "\<forall>p\<in>set pre. hsize s p < S"
    and big: "S < hsize s c"
  shows "\<exists>r s1 s2. reportFreeMemory P s0 = Some (r, s)
       \<and> allocateMemory P s0 b = Some (c + sizeof_header_t, s1)
       \<and> unat S + 8 \<le> r
       \<and> reportFreeMemory P s1 = Some (r - (unat S + 8), s1)
       \<and> freeMemory P s1 (c + sizeof_header_t) = Some s2
       \<and> reportFreeMemory P s2 = Some (r, s2)"
proof -
  from allocateMemory_split_then_free [OF assms]
  obtain s1 s2 where run1: "allocateMemory P s0 b = Some (c + sizeof_header_t, s1)"
    and wf1: "well_formed P s1 (pre @ (c + (S + sizeof_header_t)) # post)"
    and bytes1: "free_bytes s1 (pre @ (c + (S + sizeof_header_t)) # post) + (unat S + 8)
                   = free_bytes s (pre @ c # post)"
    and i1: "is_initialised s1 \<noteq> 0"
    and run2: "freeMemory P s1 (c + sizeof_header_t) = Some s2"
    and wf2: "well_formed P s2 (pre @ c # post)"
    and bytes2: "free_bytes s2 (pre @ c # post) = free_bytes s (pre @ c # post)"
    and i2: "is_initialised s2 \<noteq> 0"
    by blast
  have e1: "s1 = ensureInitialised P s1" and e2: "s2 = ensureInitialised P s2"
    using i1 i2 by (simp_all add: ensureInitialised_done)
  have r0: "reportFreeMemory P s0 = Some (free_bytes s (pre @ c # post), s)"
    using s wf by (rule reportFreeMemory_well_formed)
  have r1: "reportFreeMemory P s1
              = Some (free_bytes s1 (pre @ (c + (S + sizeof_header_t)) # post), s1)"
    using e1 wf1 by (rule reportFreeMemory_well_formed)
  have r2: "reportFreeMemory P s2 = Some (free_bytes s2 (pre @ c # post), s2)"
    using e2 wf2 by (rule reportFreeMemory_well_formed)
  have le: "unat S + 8 \<le> free_bytes s (pre @ c # post)" using bytes1 by linarith
  have eq: "free_bytes s1 (pre @ (c + (S + sizeof_header_t)) # post)
              = free_bytes s (pre @ c # post) - (unat S + 8)" using bytes1 by linarith
  show ?thesis using r0 run1 le r1 run2 r2 bytes2 eq by auto
qed

theorem allocateMemory_split_accounting_witness:
  "\<exists>s1 s2. reportFreeMemory (page_provider 4) (boot \<lparr>pages = 1, grow_log = []\<rparr>)
               = Some (65520, ensureInitialised (page_provider 4) (boot \<lparr>pages = 1, grow_log = []\<rparr>))
       \<and> allocateMemory (page_provider 4) (boot \<lparr>pages = 1, grow_log = []\<rparr>) 100 = Some (16, s1)
       \<and> reportFreeMemory (page_provider 4) s1 = Some (65408, s1)
       \<and> freeMemory (page_provider 4) s1 16 = Some s2
       \<and> reportFreeMemory (page_provider 4) s2 = Some (65520, s2)"
proof -
  let ?P = "page_provider 4" and ?s0 = "boot \<lparr>pages = 1, grow_log = []\<rparr>"
  have wf: "well_formed ?P (ensureInitialised ?P ?s0) ([] @ 8 # [])"
    by (simp add: wf_defs eval_defs)
  have S: "pad8 100 = 104" by (simp add: pad8_def)
  have big: "pad8 100 < hsize (ensureInitialised ?P ?s0) 8"
    by (simp add: eval_defs)
  have small: "\<forall>p\<in>set []. hsize (ensureInitialised ?P ?s0) p < pad8 100" by simp
  have r: "reportFreeMemory ?P ?s0 = Some (65520, ensureInitialised ?P ?s0)"
    by (simp add: eval_defs)
  from allocateMemory_split_accounting [OF refl wf refl small big]
  obtain r' s1 s2 where "reportFreeMemory ?P ?s0 = Some (r', ensureInitialised ?P ?s0)"
    and "allocateMemory ?P ?s0 100 = Some (8 + sizeof_header_t, s1)"
    and "reportFreeMemory ?P s1 = Some (r' - (unat (pad8 100) + 8), s1)"
    and "freeMemory ?P s1 (8 + sizeof_header_t) = Some s2"
    and "reportFreeMemory ?P s2 = Some (r', s2)"
    by blast
  then show ?thesis using r S by (intro exI [of _ s1] exI [of _ s2]) simp
qed

lemma pad8_0: "pad8 0 = 0"
  by (simp add: pad8_def)

lemma allocateMemory_exact_head:
  assumes s: "s = ensureInitialised P s0" and h: "free_list s = h" "h \<noteq> NULL"
    and S: "hsize s h = pad8 b"
  shows "allocateMemory P s0 b
           = Some (h + sizeof_header_t, s\<lparr>free_list := NULL, hnext := (hnext s)(h := NULL)\<rparr>)"
proof -
  have "alloc_loop s (pad8 b) (pad8 b + sizeof_header_t) (free_list s) (free_list s)
          = Some (Some (h + sizeof_header_t),
                  s\<lparr>free_list := NULL, hnext := (hnext s)(h := NULL)\<rparr>)"
    using h S by (subst alloc_loop.simps) (simp add: Let_def)
  then show ?thesis using s h allocateMemory_found by metis
qed

text \<open>
  Claim C10, as amended. On a well-formed, non-empty free list with head \<open>h\<close>,
  \<open>allocateMemory(0)\<close> returns the payload pointer of the head, which is not \<open>NULL\<close>: the
  request rounds to 0 and the head always fits. When the size of the head is not 0 the
  head is split and the total of \<open>reportFreeMemory\<close> drops by exactly 8.
\<close>

theorem allocateMemory_zero:
  assumes s: "s = ensureInitialised P s0"
    and wf: "well_formed P s (h # rest)"
  shows "\<exists>r s'. allocateMemory P s0 0 = Some (h + sizeof_header_t, s')
       \<and> h + sizeof_header_t \<noteq> NULL
       \<and> reportFreeMemory P s0 = Some (r, s)
       \<and> (hsize s h \<noteq> 0 \<longrightarrow>
            8 \<le> r \<and> reportFreeMemory P s' = Some (r - 8, s')
            \<and> well_formed P s' ((h + sizeof_header_t) # rest))"
proof -
  have hstore: "in_store P s h" using wf by (simp add: well_formed_def)
  have nn: "h + sizeof_header_t \<noteq> NULL" "h \<noteq> NULL" using in_store_notnull [OF hstore] by simp_all
  have head: "free_list s = h" using wf by (simp add: well_formed_def free_blocks_def)
  have r0: "reportFreeMemory P s0 = Some (free_bytes s (h # rest), s)"
    using s wf by (rule reportFreeMemory_well_formed)
  show ?thesis
  proof (cases "hsize s h = 0")
    case True
    then have "hsize s h = pad8 0" by (simp add: pad8_0)
    from allocateMemory_exact_head [OF s head nn(2) this]
    show ?thesis using nn r0 True by simp
  next
    case False
    then have big: "pad8 0 < hsize s h" by (simp add: pad8_0 word_greater_zero_iff)
    have wf0: "well_formed P s ([] @ h # rest)" using wf by simp
    have small: "\<forall>p\<in>set []. hsize s p < pad8 0" by simp
    from allocateMemory_split_then_free [OF s wf0 refl small big]
    obtain s1 where run1: "allocateMemory P s0 0 = Some (h + sizeof_header_t, s1)"
      and wf1: "well_formed P s1 ((h + sizeof_header_t) # rest)"
      and bytes1: "free_bytes s1 ((h + sizeof_header_t) # rest) + 8 = free_bytes s (h # rest)"
      and i1: "is_initialised s1 \<noteq> 0"
      by (auto simp: pad8_0)
    have e1: "s1 = ensureInitialised P s1" using i1 by (simp add: ensureInitialised_done)
    have r1: "reportFreeMemory P s1 = Some (free_bytes s1 ((h + sizeof_header_t) # rest), s1)"
      using e1 wf1 by (rule reportFreeMemory_well_formed)
    have "8 \<le> free_bytes s (h # rest)" using bytes1 by linarith
    moreover have "free_bytes s1 ((h + sizeof_header_t) # rest) = free_bytes s (h # rest) - 8"
      using bytes1 by linarith
    ultimately show ?thesis using run1 nn r0 r1 wf1 by auto
  qed
qed

theorem allocateMemory_zero_witness:
  "\<exists>s'. allocateMemory (page_provider 4) (boot \<lparr>pages = 1, grow_log = []\<rparr>) 0 = Some (16, s')
       \<and> reportFreeMemory (page_provider 4) (boot \<lparr>pages = 1, grow_log = []\<rparr>)
           = Some (65520, ensureInitialised (page_provider 4) (boot \<lparr>pages = 1, grow_log = []\<rparr>))
       \<and> reportFreeMemory (page_provider 4) s' = Some (65512, s')
       \<and> well_formed (page_provider 4) s' [16]"
proof -
  let ?P = "page_provider 4" and ?s0 = "boot \<lparr>pages = 1, grow_log = []\<rparr>"
  have wf: "well_formed ?P (ensureInitialised ?P ?s0) (8 # [])"
    by (simp add: wf_defs eval_defs)
  have sz: "hsize (ensureInitialised ?P ?s0) 8 \<noteq> 0" by (simp add: eval_defs)
  have r: "reportFreeMemory ?P ?s0 = Some (65520, ensureInitialised ?P ?s0)"
    by (simp add: eval_defs)
  from allocateMemory_zero [OF refl wf] sz
  obtain r' s' where "allocateMemory ?P ?s0 0 = Some (8 + sizeof_header_t, s')"
    and "reportFreeMemory ?P ?s0 = Some (r', ensureInitialised ?P ?s0)"
    and "reportFreeMemory ?P s' = Some (r' - 8, s')"
    and "well_formed ?P s' ((8 + sizeof_header_t) # [])"
    by blast
  then show ?thesis using r by (intro exI [of _ s']) simp
qed

subsection \<open>Coalescing\<close>

lemma in_store_frame:
  assumes "in_store P s x" and "hsize s' x = hsize s x" and "world s' = world s"
  shows "in_store P s' x"
  using assms by (simp add: in_store_def block_end_def)

lemma block_end_frame: "hsize s' x = hsize s x \<Longrightarrow> block_end s' x = block_end s x"
  by (simp add: block_end_def)

text \<open>Freeing a block that is adjacent to no free block: it is linked in, no size changes.\<close>

lemma freeMemory_isolated:
  assumes s: "s = ensureInitialised P s0"
    and wf: "well_formed P s (pre @ post)"
    and xs: "in_store P s x" and nx: "hnext s x = NULL"
    and left: "\<forall>p\<in>set pre. block_end s p < unat x"
    and right: "\<forall>q\<in>set post. block_end s x < unat q"
  shows "\<exists>s'. freeMemory P s0 (x + sizeof_header_t) = Some s'
      \<and> well_formed P s' (pre @ x # post)
      \<and> hsize s' = hsize s
      \<and> (\<forall>p. p \<noteq> x \<and> p \<notin> set pre \<longrightarrow> hnext s' p = hnext s p)
      \<and> world s' = world s \<and> is_initialised s' \<noteq> 0"
proof -
  have lo: "\<forall>p\<in>set pre. block_end s p \<le> unat x" using left by (simp add: order_less_imp_le)
  have hi: "\<forall>q\<in>set post. block_end s x \<le> unat q" using right by (simp add: order_less_imp_le)
  have last: "post = [] \<longrightarrow> hnext s x = NULL" using nx by simp
  have ms: "False = (post \<noteq> [] \<and> unat (hd post) = block_end s x)"
  proof (cases post)
    case Nil
    then show ?thesis by simp
  next
    case (Cons q qs)
    then have "block_end s x < unat q" using right by simp
    then show ?thesis using Cons by simp
  qed
  have mp: "False = (pre \<noteq> [] \<and> unat x = block_end s (last pre))"
  proof (cases "pre = []")
    case True
    then show ?thesis by simp
  next
    case False
    then have "block_end s (last pre) < unat x" using left by simp
    then show ?thesis by simp
  qed
  have y: "x = (if False then last pre else x)" by simp
  have E: "block_end s x = (if False then block_end s (hd post) else block_end s x)" by simp
  from freeMemory_well_formed [OF s wf xs lo hi last ms mp y E]
  obtain s' where run: "freeMemory P s0 (x + sizeof_header_t) = Some s'"
    and wf': "well_formed P s' (pre @ x # post)"
    and endx: "block_end s' x = block_end s x"
    and same: "\<forall>p. p \<noteq> x \<longrightarrow> hsize s' p = hsize s p"
    and nx': "\<forall>p. p \<noteq> x \<and> p \<notin> set pre \<longrightarrow> hnext s' p = hnext s p"
    and w': "world s' = world s" and i': "is_initialised s' = is_initialised s"
    by auto
  have "unat (hsize s' x) = unat (hsize s x)" using endx by (simp add: block_end_def)
  then have "hsize s' x = hsize s x" by (simp add: word_unat_eq_iff)
  then have "hsize s' = hsize s" using same by (intro ext) metis
  moreover have "is_initialised s' \<noteq> 0" using i' s ensureInitialised_initialised by metis
  ultimately show ?thesis using run wf' nx' w' by blast
qed


text \<open>
  Claim C5, as amended. Two physically adjacent allocated blocks \<open>a\<close> and \<open>b\<close> (the two
  parts of a split), neither of them adjacent to a free block: freeing both, in either
  order and with no operation in between, leaves one free block at \<open>a\<close> in their place,
  whose size is the sum of the two sizes plus 8; the other free blocks keep their sizes.
\<close>

theorem freeMemory_coalesces_pair:
  assumes s: "s = ensureInitialised P s0"
    and wf: "well_formed P s (pre @ post)"
    and a: "in_store P s a" "hnext s a = NULL"
    and b: "in_store P s b" "hnext s b = NULL"
    and adj: "unat b = block_end s a"
    and left: "\<forall>p\<in>set pre. block_end s p < unat a"
    and right: "\<forall>q\<in>set post. block_end s b < unat q"
  shows "\<exists>s1 s2 t1 t2.
        freeMemory P s0 (a + sizeof_header_t) = Some s1
      \<and> freeMemory P s1 (b + sizeof_header_t) = Some s2
      \<and> freeMemory P s0 (b + sizeof_header_t) = Some t1
      \<and> freeMemory P t1 (a + sizeof_header_t) = Some t2
      \<and> well_formed P s2 (pre @ a # post) \<and> well_formed P t2 (pre @ a # post)
      \<and> unat (hsize s2 a) = unat (hsize s a) + unat (hsize s b) + 8
      \<and> unat (hsize t2 a) = unat (hsize s a) + unat (hsize s b) + 8
      \<and> (\<forall>p\<in>set pre \<union> set post. hsize s2 p = hsize s p \<and> hsize t2 p = hsize s p)"
proof -
  have ab: "unat a < unat b" using adj block_end_gt [of a s] by simp
  have bb: "unat b < block_end s b" by (rule block_end_gt)
  have a_ne_b: "a \<noteq> b" using ab by auto
  have sep: "separated s (pre @ post)" using wf by (simp add: well_formed_def)
  have dist: "distinct (pre @ post)" using sep by (rule separated_distinct)
  have a_pre: "a \<notin> set pre" using left block_end_gt [of a s] by fastforce
  have b_pre: "b \<notin> set pre"
  proof
    assume "b \<in> set pre"
    then have "block_end s b < unat a" using left by simp
    then show False using ab bb by simp
  qed
  have a_post: "a \<notin> set post"
  proof
    assume "a \<in> set post"
    then have "block_end s b < unat a" using right by simp
    then show False using ab bb by simp
  qed
  have b_post: "b \<notin> set post" using right bb by fastforce
  have total: "block_end s b = unat a + 8 + (unat (hsize s a) + unat (hsize s b) + 8)"
    using adj by (simp add: block_end_def)

  \<comment> \<open>first \<open>a\<close>, then \<open>b\<close>\<close>
  have right_a: "\<forall>q\<in>set post. block_end s a < unat q"
    using right adj bb by fastforce
  from freeMemory_isolated [OF s wf a left right_a]
  obtain s1 where run1: "freeMemory P s0 (a + sizeof_header_t) = Some s1"
    and wf1: "well_formed P s1 (pre @ a # post)"
    and sz1: "hsize s1 = hsize s"
    and nx1: "\<forall>p. p \<noteq> a \<and> p \<notin> set pre \<longrightarrow> hnext s1 p = hnext s p"
    and w1: "world s1 = world s" and i1: "is_initialised s1 \<noteq> 0"
    by blast
  have e1: "s1 = ensureInitialised P s1" using i1 by (simp add: ensureInitialised_done)
  have be1: "block_end s1 p = block_end s p" for p by (simp add: block_end_def sz1)
  have wf1': "well_formed P s1 ((pre @ [a]) @ post)" using wf1 by simp
  have xs1: "in_store P s1 b" using b(1) sz1 w1 by (simp add: in_store_frame)
  have lo1: "\<forall>p\<in>set (pre @ [a]). block_end s1 p \<le> unat b"
    using left ab adj be1 by fastforce
  have hi1: "\<forall>q\<in>set post. block_end s1 b \<le> unat q"
    using right be1 by (simp add: order_less_imp_le)
  have last1: "post = [] \<longrightarrow> hnext s1 b = NULL"
    using nx1 a_ne_b b_pre b(2) by simp
  have ms1: "False = (post \<noteq> [] \<and> unat (hd post) = block_end s1 b)"
  proof (cases post)
    case Nil
    then show ?thesis by simp
  next
    case (Cons q qs)
    then have "block_end s b < unat q" using right by simp
    then show ?thesis using Cons be1 by simp
  qed
  have mp1: "True = (pre @ [a] \<noteq> [] \<and> unat b = block_end s1 (last (pre @ [a])))"
    using adj be1 by simp
  have y1: "a = (if True then last (pre @ [a]) else b)" by simp
  have E1: "block_end s b = (if False then block_end s1 (hd post) else block_end s1 b)"
    using be1 by simp
  from freeMemory_well_formed [OF e1 wf1' xs1 lo1 hi1 last1 ms1 mp1 y1 E1]
  obtain s2 where run2: "freeMemory P s1 (b + sizeof_header_t) = Some s2"
    and wf2: "well_formed P s2 (pre @ a # post)"
    and end2: "block_end s2 a = block_end s b"
    and same2: "\<forall>p. p \<noteq> b \<and> p \<noteq> a \<longrightarrow> hsize s2 p = hsize s1 p"
    by auto
  have size2: "unat (hsize s2 a) = unat (hsize s a) + unat (hsize s b) + 8"
    using end2 total by (simp add: block_end_def)
  have frame2: "\<forall>p\<in>set pre \<union> set post. hsize s2 p = hsize s p"
    using same2 sz1 a_pre a_post b_pre b_post by auto

  \<comment> \<open>first \<open>b\<close>, then \<open>a\<close>\<close>
  have left_b: "\<forall>p\<in>set pre. block_end s p < unat b"
    using left ab by fastforce
  from freeMemory_isolated [OF s wf b left_b right]
  obtain t1 where run3: "freeMemory P s0 (b + sizeof_header_t) = Some t1"
    and wft1: "well_formed P t1 (pre @ b # post)"
    and szt1: "hsize t1 = hsize s"
    and wt1: "world t1 = world s" and it1: "is_initialised t1 \<noteq> 0"
    by blast
  have et1: "t1 = ensureInitialised P t1" using it1 by (simp add: ensureInitialised_done)
  have bet1: "block_end t1 p = block_end s p" for p by (simp add: block_end_def szt1)
  have xst1: "in_store P t1 a" using a(1) szt1 wt1 by (simp add: in_store_frame)
  have lot1: "\<forall>p\<in>set pre. block_end t1 p \<le> unat a"
    using left bet1 by (simp add: order_less_imp_le)
  have hit1: "\<forall>q\<in>set (b # post). block_end t1 a \<le> unat q"
    using right_a adj bet1 by (simp add: order_less_imp_le)
  have lastt1: "b # post = [] \<longrightarrow> hnext t1 a = NULL" by simp
  have mst1: "True = (b # post \<noteq> [] \<and> unat (hd (b # post)) = block_end t1 a)"
    using adj bet1 by simp
  have mpt1: "False = (pre \<noteq> [] \<and> unat a = block_end t1 (last pre))"
  proof (cases "pre = []")
    case True
    then show ?thesis by simp
  next
    case False
    then have "block_end s (last pre) < unat a" using left by simp
    then show ?thesis using bet1 by simp
  qed
  have yt1: "a = (if False then last pre else a)" by simp
  have Et1: "block_end s b = (if True then block_end t1 (hd (b # post)) else block_end t1 a)"
    using bet1 by simp
  from freeMemory_well_formed [OF et1 wft1 xst1 lot1 hit1 lastt1 mst1 mpt1 yt1 Et1]
  obtain t2 where run4: "freeMemory P t1 (a + sizeof_header_t) = Some t2"
    and wft2: "well_formed P t2 (pre @ a # post)"
    and endt2: "block_end t2 a = block_end s b"
    and samet2: "\<forall>p. p \<noteq> a \<longrightarrow> hsize t2 p = hsize t1 p"
    by auto
  have sizet2: "unat (hsize t2 a) = unat (hsize s a) + unat (hsize s b) + 8"
    using endt2 total by (simp add: block_end_def)
  have framet2: "\<forall>p\<in>set pre \<union> set post. hsize t2 p = hsize s p"
    using samet2 szt1 a_pre a_post by auto
  show ?thesis
    using run1 run2 run3 run4 wf2 wft2 size2 sizet2 frame2 framet2 by blast
qed


theorem freeMemory_coalesces_pair_witness:
  "\<exists>s1 s2 t1 t2.
      freeMemory (page_provider 4)
        \<lparr>free_list = NULL, is_initialised = 1, hnext = (\<lambda>_. NULL),
         hsize = (\<lambda>_. 0)(8 := 16, 32 := 65496), world = \<lparr>pages = 1, grow_log = []\<rparr>\<rparr> 16 = Some s1
    \<and> freeMemory (page_provider 4) s1 40 = Some s2
    \<and> freeMemory (page_provider 4)
        \<lparr>free_list = NULL, is_initialised = 1, hnext = (\<lambda>_. NULL),
         hsize = (\<lambda>_. 0)(8 := 16, 32 := 65496), world = \<lparr>pages = 1, grow_log = []\<rparr>\<rparr> 40 = Some t1
    \<and> freeMemory (page_provider 4) t1 16 = Some t2
    \<and> well_formed (page_provider 4) s2 [8] \<and> well_formed (page_provider 4) t2 [8]
    \<and> unat (hsize s2 8) = 65520 \<and> unat (hsize t2 8) = 65520"
proof -
  let ?P = "page_provider 4"
  let ?s = "\<lparr>free_list = NULL, is_initialised = 1, hnext = (\<lambda>_. NULL),
            hsize = (\<lambda>_. 0)(8 := 16, 32 := 65496), world = \<lparr>pages = 1, grow_log = []\<rparr>\<rparr>
            :: store state"
  have s: "?s = ensureInitialised ?P ?s" by (simp add: ensureInitialised_def)
  have wf: "well_formed ?P ?s ([] @ [])" by (simp add: wf_defs)
  have a: "in_store ?P ?s 8" "hnext ?s 8 = NULL" by (simp_all add: wf_defs page_provider_def)
  have b: "in_store ?P ?s 32" "hnext ?s 32 = NULL" by (simp_all add: wf_defs page_provider_def)
  have adj: "unat (32 :: addr) = block_end ?s 8" by (simp add: block_end_def)
  have left: "\<forall>p\<in>set []. block_end ?s p < unat (8 :: addr)" by simp
  have right: "\<forall>q\<in>set []. block_end ?s 32 < unat q" by simp
  from freeMemory_coalesces_pair [OF s wf a b adj left right]
  obtain s1 s2 t1 t2 where "freeMemory ?P ?s (8 + sizeof_header_t) = Some s1"
    and "freeMemory ?P s1 (32 + sizeof_header_t) = Some s2"
    and "freeMemory ?P ?s (32 + sizeof_header_t) = Some t1"
    and "freeMemory ?P t1 (8 + sizeof_header_t) = Some t2"
    and "well_formed ?P s2 ([] @ 8 # [])" and "well_formed ?P t2 ([] @ 8 # [])"
    and "unat (hsize s2 8) = unat (hsize ?s 8) + unat (hsize ?s 32) + 8"
    and "unat (hsize t2 8) = unat (hsize ?s 8) + unat (hsize ?s 32) + 8"
    by blast
  then show ?thesis
    by (intro exI [of _ s1] exI [of _ s2] exI [of _ t1] exI [of _ t2]) simp
qed

subsection \<open>Growth and retry\<close>

lemma ensureInitialised_world: "world (ensureInitialised P s) = world s"
  by (simp add: ensureInitialised_def Let_def)

lemma freeMemory_world: "freeMemory P s ptr = Some s' \<Longrightarrow> world s' = world s"
  by (auto simp: freeMemory_def Let_def free_attach_current_def free_attach_previous_def
      ensureInitialised_world split: if_splits option.splits)

lemma getMoreMemory_world:
  assumes "getMoreMemory P s n = Some (r, s')"
  shows "world s' = snd (grow P (blocks_for n) (world s))"
proof (cases "grow P (blocks_for n) (world s)")
  case (Pair e w)
  show ?thesis
  proof (cases "e = 0")
    case True
    then show ?thesis using assms Pair by (auto simp: getMoreMemory_def)
  next
    case False
    then show ?thesis using assms Pair
      by (auto simp: getMoreMemory_def Let_def split: option.splits if_splits
          dest!: freeMemory_world)
  qed
qed

text \<open>
  When the scan of a non-empty free list finds no fitting block, the invocation calls the
  growth bridge once, for the rounded request \<open>S\<close>, and the growth bridge calls \<open>grow\<close>
  once. After a successful growth the invocation returns what the recursive call of
  line 141 returns, whose request is \<open>S + 8\<close>.
\<close>

lemma allocateMemory_no_fit:
  assumes s: "s = ensureInitialised P s0" and S: "S = pad8 b"
    and list: "free_list s \<noteq> NULL"
    and scan: "alloc_loop s S (S + sizeof_header_t) (free_list s) (free_list s) = Some (None, s)"
  shows "allocateMemory P s0 b
           = (case getMoreMemory P s S of
                None \<Rightarrow> None
              | Some (r, s4) \<Rightarrow> if r = NULL then Some (NULL, s4)
                                else allocateMemory P s4 (S + sizeof_header_t))
       \<and> (\<forall>r s4. getMoreMemory P s S = Some (r, s4)
              \<longrightarrow> world s4 = snd (grow P (blocks_for S) (world s)))
       \<and> (fst (grow P (blocks_for S) (world s)) = 0
              \<longrightarrow> allocateMemory P s0 b
                    = Some (NULL, s\<lparr>world := snd (grow P (blocks_for S) (world s))\<rparr>))"
proof -
  have unfold: "allocateMemory P s0 b
           = (case getMoreMemory P s S of
                None \<Rightarrow> None
              | Some (r, s4) \<Rightarrow> if r = NULL then Some (NULL, s4)
                                else allocateMemory P s4 (S + sizeof_header_t))"
    using s S list scan
    by (subst allocateMemory.simps) (simp add: Let_def split: option.splits prod.splits)
  have once: "\<forall>r s4. getMoreMemory P s S = Some (r, s4)
              \<longrightarrow> world s4 = snd (grow P (blocks_for S) (world s))"
    using getMoreMemory_world by blast
  have fail: "allocateMemory P s0 b
                = Some (NULL, s\<lparr>world := snd (grow P (blocks_for S) (world s))\<rparr>)"
    if "fst (grow P (blocks_for S) (world s)) = 0"
    using unfold getMoreMemory_failure [OF that] by simp
  show ?thesis using unfold once fail by blast
qed

subsection \<open>Induction on the retries, and the flag of the guard\<close>

lemma allocateMemory_step:
  "allocateMemory P s0 b
     = Option.bind (alloc_step P s0 b)
         (\<lambda>x. case x of Inl y \<Rightarrow> Some y | Inr (s4, b') \<Rightarrow> allocateMemory P s4 b')"
  by (subst allocateMemory.simps)
     (auto simp: alloc_step_def Let_def split: bind_splits option.splits if_splits prod.splits)

lemma alloc_body_step:
  "(let s = ensureInitialised P s0;
        bytes_required = pad8 bytes_required0;
        bytes_required_plus_header = bytes_required + sizeof_header_t
    in Option.bind
         (if free_list s = NULL then
            Option.bind (getMoreMemory P s bytes_required_plus_header)
              (\<lambda>(r, s1). Some (s1\<lparr>free_list := r\<rparr>))
          else Some s)
         (\<lambda>s2. if free_list s2 = NULL then Some (NULL, s2)
               else
                 Option.bind
                   (alloc_loop s2 bytes_required bytes_required_plus_header
                      (free_list s2) (free_list s2))
                   (\<lambda>(found, s3).
                      case found of
                        Some p \<Rightarrow> Some (p, s3)
                      | None \<Rightarrow>
                          Option.bind (getMoreMemory P s3 bytes_required)
                            (\<lambda>(r, s4). if r = NULL then Some (NULL, s4)
                                       else f P s4 bytes_required_plus_header))))
     = Option.bind (alloc_step P s0 bytes_required0)
         (\<lambda>x. case x of Inl y \<Rightarrow> Some y | Inr (s4, b') \<Rightarrow> f P s4 b')"
  by (auto simp: alloc_step_def Let_def split: bind_splits option.splits if_splits prod.splits)

lemma allocateMemory_induct:
  assumes run: "allocateMemory P s0 b = Some y"
    and base: "\<And>s0 b y. alloc_step P s0 b = Some (Inl y) \<Longrightarrow> Q s0 b y"
    and step: "\<And>s0 b s4 b' y. alloc_step P s0 b = Some (Inr (s4, b')) \<Longrightarrow> Q s4 b' y \<Longrightarrow> Q s0 b y"
  shows "Q s0 b y"
proof -
  have "(\<lambda>a y. fst (fst a) = P \<longrightarrow> Q (snd (fst a)) (snd a) y) ((P, s0), b) y"
    using run
    apply (rule allocateMemory.raw_induct [rotated])
    subgoal premises prems for f P' s0 b y
    proof -
      have body: "Option.bind (alloc_step P' s0 b)
                (\<lambda>x. case x of Inl y \<Rightarrow> Some y | Inr (s4, b') \<Rightarrow> f P' s4 b') = Some y"
        using prems(2) by (simp only: alloc_body_step)
      show ?thesis
      proof (cases "alloc_step P' s0 b")
        case None
        then show ?thesis using body by simp
      next
        case (Some x)
        show ?thesis
        proof (cases x)
          case (Inl y')
          then have "y' = y" using body Some by simp
          then have st: "alloc_step P' s0 b = Some (Inl y)" using Some Inl by simp
          have "P' = P \<longrightarrow> Q s0 b y"
          proof
            assume "P' = P"
            then have "alloc_step P s0 b = Some (Inl y)" using st by simp
            then show "Q s0 b y" by (rule base)
          qed
          then show ?thesis by simp
        next
          case (Inr p)
          obtain s4 b' where p: "p = (s4, b')" by (cases p)
          then have "f P' s4 b' = Some y" using body Some Inr by simp
          then have ih: "P' = P \<longrightarrow> Q s4 b' y" using prems(1) by fastforce
          have "P' = P \<longrightarrow> Q s0 b y"
          proof
            assume e: "P' = P"
            then have "alloc_step P s0 b = Some (Inr (s4, b'))" using Some Inr p by simp
            moreover have "Q s4 b' y" using ih e by simp
            ultimately show "Q s0 b y" by (rule step)
          qed
          then show ?thesis by simp
        qed
      qed
    qed
    done
  then show ?thesis by simp
qed

lemma alloc_loop_flag:
  assumes "alloc_loop s S H c p = Some y"
  shows "is_initialised (snd y) = is_initialised s"
  using assms
  by (rule alloc_loop.raw_induct [rotated, where P = "\<lambda>s S H c p y. is_initialised (snd y) = is_initialised s"])
     (auto simp: Let_def split: if_splits)

lemma freeMemory_flag:
  assumes "freeMemory P s ptr = Some s'"
  shows "is_initialised s' \<noteq> 0"
  using assms ensureInitialised_initialised [of P s]
  by (auto simp: freeMemory_def Let_def free_attach_current_def free_attach_previous_def
      split: if_splits option.splits)

lemma getMoreMemory_flag:
  assumes "getMoreMemory P s n = Some (r, s')" and "is_initialised s \<noteq> 0"
  shows "is_initialised s' \<noteq> 0"
proof (cases "grow P (blocks_for n) (world s)")
  case (Pair e w)
  show ?thesis
  proof (cases "e = 0")
    case True
    then show ?thesis using assms Pair by (auto simp: getMoreMemory_def)
  next
    case False
    then show ?thesis using assms Pair
      by (auto simp: getMoreMemory_def Let_def split: option.splits if_splits
          dest!: freeMemory_flag)
  qed
qed

lemma alloc_step_flag:
  assumes "alloc_step P s0 b = Some x"
  shows "case x of Inl y \<Rightarrow> is_initialised (snd y) \<noteq> 0 | Inr (s4, b') \<Rightarrow> is_initialised s4 \<noteq> 0"
proof -
  define s where "s = ensureInitialised P s0"
  have i: "is_initialised s \<noteq> 0" unfolding s_def by (rule ensureInitialised_initialised)
  show ?thesis
    using assms i unfolding alloc_step_def s_def [symmetric] Let_def
    by (auto split: bind_splits if_splits option.splits prod.splits
        dest!: getMoreMemory_flag alloc_loop_flag)
qed

lemma allocateMemory_flag:
  assumes "allocateMemory P s0 b = Some y"
  shows "is_initialised (snd y) \<noteq> 0"
proof (rule allocateMemory_induct [OF assms, where Q = "\<lambda>s0 b y. is_initialised (snd y) \<noteq> 0"])
  fix s0 b y
  assume "alloc_step P s0 b = Some (Inl y)"
  from alloc_step_flag [OF this] show "is_initialised (snd y) \<noteq> 0" by simp
next
  fix s0 b s4 b' y
  assume "is_initialised (snd y) \<noteq> 0"
  then show "is_initialised (snd y) \<noteq> 0" .
qed


lemma ensureInitialised_funpow_done:
  "is_initialised t \<noteq> 0 \<Longrightarrow> (ensureInitialised P ^^ n) t = t"
  by (induction n) (simp_all add: ensureInitialised_done)

lemma reportFreeMemory_state:
  assumes "reportFreeMemory P t0 = Some (n, t)"
  shows "t = ensureInitialised P t0"
  using assms by (auto simp: reportFreeMemory_def Let_def split: if_splits)

text \<open>
  Claim C8. The guard runs its body at most once. On a state that is not yet initialised
  it sets the flag and leaves a free list of exactly one block, at the reserved-region
  boundary 8, of size length - 8 - 8. On every state with the flag set, whatever its free
  list, any number of runs of the guard change nothing. Every operation
  (\<open>allocateMemory\<close>, \<open>freeMemory\<close>, \<open>reportFreeMemory\<close>) returns a state with the flag
  set, so after the first operation the guard of every further operation leaves the free
  list and the reported total as they are.
\<close>

theorem ensureInitialised_once:
  assumes "is_initialised s = 0" and "s' = ensureInitialised P s"
  shows "free_blocks s' [initial_offset]
       \<and> hsize s' initial_offset
           = memoryBytesLength P (world s) - sizeof_header_t - initial_offset
       \<and> (16 \<le> unat (memoryBytesLength P (world s))
            \<longrightarrow> unat (hsize s' initial_offset) = unat (memoryBytesLength P (world s)) - 8 - 8)
       \<and> is_initialised s' \<noteq> 0
       \<and> reportFreeMemory P s = Some (unat (hsize s' initial_offset), s')
       \<and> (\<forall>t. is_initialised t \<noteq> 0 \<longrightarrow>
              (\<forall>n. (ensureInitialised P ^^ n) t = t
                 \<and> reportFreeMemory P ((ensureInitialised P ^^ n) t) = reportFreeMemory P t))
       \<and> (\<forall>t0 b r t. allocateMemory P t0 b = Some (r, t) \<longrightarrow>
              is_initialised t \<noteq> 0 \<and> (\<forall>n. (ensureInitialised P ^^ n) t = t))
       \<and> (\<forall>t0 x t. freeMemory P t0 x = Some t \<longrightarrow>
              is_initialised t \<noteq> 0 \<and> (\<forall>n. (ensureInitialised P ^^ n) t = t))
       \<and> (\<forall>t0 k t. reportFreeMemory P t0 = Some (k, t) \<longrightarrow>
              is_initialised t \<noteq> 0 \<and> (\<forall>n. (ensureInitialised P ^^ n) t = t))"
proof -
  let ?len = "memoryBytesLength P (world s)"
  have init: "is_initialised s' \<noteq> 0"
    using assms by (simp add: ensureInitialised_def Let_def)
  have blocks: "free_blocks s' [initial_offset]"
    using assms by (simp add: free_blocks_def ensureInitialised_def Let_def)
  have size: "hsize s' initial_offset = ?len - sizeof_header_t - initial_offset"
    using assms by (simp add: ensureInitialised_def Let_def)
  have nsize: "unat (hsize s' initial_offset) = unat ?len - 8 - 8" if "16 \<le> unat ?len"
  proof -
    have "(16 :: 32 word) \<le> ?len" using that by (simp add: word_le_nat_alt)
    then have "unat (?len - 16) = unat ?len - 16" by (simp add: unat_sub)
    moreover have "hsize s' initial_offset = ?len - 16" using size by simp
    ultimately show ?thesis by simp
  qed
  have head: "free_list s' = initial_offset" and link: "hnext s' initial_offset = NULL"
    using assms by (simp_all add: ensureInitialised_def Let_def)
  have loop: "report_loop s' initial_offset 0 = Some (hsize s' initial_offset)"
    by (simp add: link report_loop.simps)
  have rep: "reportFreeMemory P s = Some (unat (hsize s' initial_offset), s')"
    using loop head by (simp add: reportFreeMemory_def assms(2) [symmetric])
  have once: "(ensureInitialised P ^^ n) t = t
                \<and> reportFreeMemory P ((ensureInitialised P ^^ n) t) = reportFreeMemory P t"
    if "is_initialised t \<noteq> 0" for t n
    using that by (simp add: ensureInitialised_funpow_done)
  have alloc: "is_initialised t \<noteq> 0 \<and> (\<forall>n. (ensureInitialised P ^^ n) t = t)"
    if "allocateMemory P t0 b = Some (r, t)" for t0 b r t
    using allocateMemory_flag [OF that] by (simp add: ensureInitialised_funpow_done)
  have free: "is_initialised t \<noteq> 0 \<and> (\<forall>n. (ensureInitialised P ^^ n) t = t)"
    if "freeMemory P t0 x = Some t" for t0 x t
    using freeMemory_flag [OF that] by (simp add: ensureInitialised_funpow_done)
  have report: "is_initialised t \<noteq> 0 \<and> (\<forall>n. (ensureInitialised P ^^ n) t = t)"
    if "reportFreeMemory P t0 = Some (k, t)" for t0 k t
  proof -
    have "t = ensureInitialised P t0" using that by (rule reportFreeMemory_state)
    then have "is_initialised t \<noteq> 0" by (simp add: ensureInitialised_initialised)
    then show ?thesis by (simp add: ensureInitialised_funpow_done)
  qed
  show ?thesis
    using blocks size nsize init rep once alloc free report by blast
qed

theorem ensureInitialised_once_witness:
  "is_initialised (boot \<lparr>pages = 1, grow_log = []\<rparr>) = 0
   \<and> free_blocks (ensureInitialised (page_provider 4) (boot \<lparr>pages = 1, grow_log = []\<rparr>)) [8]
   \<and> unat (hsize (ensureInitialised (page_provider 4) (boot \<lparr>pages = 1, grow_log = []\<rparr>)) 8) = 65520
   \<and> (\<exists>t. allocateMemory (page_provider 4) (boot \<lparr>pages = 1, grow_log = []\<rparr>) 100 = Some (16, t)
          \<and> free_list t = 120 \<and> is_initialised t \<noteq> 0
          \<and> (ensureInitialised (page_provider 4) ^^ 3) t = t)"
proof -
  let ?P = "page_provider 4" and ?s0 = "boot \<lparr>pages = 1, grow_log = []\<rparr>"
  have u: "is_initialised ?s0 = 0" by (simp add: boot_def)
  have len: "16 \<le> unat (memoryBytesLength ?P (world ?s0))"
    by (simp add: boot_def page_provider_def)
  have lenv: "unat (memoryBytesLength ?P (world ?s0)) = 65536"
    by (simp add: boot_def page_provider_def)
  have "\<exists>t. allocateMemory ?P ?s0 100 = Some (16, t) \<and> free_list t = 120"
    by (subst allocateMemory.simps) (simp add: eval_defs)
  then obtain t where run: "allocateMemory ?P ?s0 100 = Some (16, t)" and fl: "free_list t = 120"
    by blast
  note once = ensureInitialised_once [OF u refl, of ?P]
  have a: "free_blocks (ensureInitialised ?P ?s0) [8]" using once by blast
  have "16 \<le> unat (memoryBytesLength ?P (world ?s0))
          \<longrightarrow> unat (hsize (ensureInitialised ?P ?s0) 8)
               = unat (memoryBytesLength ?P (world ?s0)) - 8 - 8"
    using once by blast
  then have b: "unat (hsize (ensureInitialised ?P ?s0) 8) = 65520" using len lenv by simp
  have c: "is_initialised t \<noteq> 0 \<and> (ensureInitialised ?P ^^ 3) t = t" using once run by blast
  show ?thesis using u a b c run fl by blast
qed

subsection \<open>Runs from program start\<close>

text \<open>
  Claim C1 fails on the code. After \<open>a = allocateMemory(16)\<close>, \<open>b = allocateMemory(8)\<close>
  and \<open>freeMemory(a)\<close> on a store of one page, the free list is the block at 8 (size 16)
  followed by the block at 48 (size 65480). \<open>allocateMemory(16)\<close> then finds an exact
  match at the head and sets \<open>free_list\<close> to \<open>NULL\<close> (line 94): the block at 48 is no
  longer in the free list.
\<close>

theorem allocateMemory_exact_head_loses_blocks:
  "do { (a, s1) \<leftarrow> allocateMemory (page_provider 4) (boot \<lparr>pages = 1, grow_log = []\<rparr>) 16;
        (b, s2) \<leftarrow> allocateMemory (page_provider 4) s1 8;
        s3 \<leftarrow> freeMemory (page_provider 4) s2 a;
        (c, s4) \<leftarrow> allocateMemory (page_provider 4) s3 16;
        Some (free_list s3, hsize s3 8, hnext s3 8, hsize s3 48, hnext s3 48, c, free_list s4) }
   = Some (8, 16, 48, 65480, NULL, 16, NULL)"
  apply (subst allocateMemory.simps, simp add: eval_defs)
  apply (subst allocateMemory.simps, simp add: eval_defs)
  apply (subst allocateMemory.simps, simp add: eval_defs)
  done

text \<open>
  Claim C2 fails on the code. With only the block at 8 (size 8) free on a store of one
  page, one call \<open>allocateMemory(65528)\<close> calls \<open>grow\<close> twice, for 1 page and then for
  2 pages. The first growth is for the rounded request 65528 (line 138) and adds a block
  of exactly that size, but the retry of line 141 asks for \<open>bytes_required_plus_header\<close>,
  65536 bytes, which that block cannot hold, and grows again. The block returned has
  size 65544, not the rounded request 65528.
\<close>

theorem allocateMemory_retry_grows_again:
  "do { (a, s1) \<leftarrow> allocateMemory (page_provider 8) (boot \<lparr>pages = 1, grow_log = []\<rparr>) 8;
        (b, s2) \<leftarrow> allocateMemory (page_provider 8) s1 65504;
        s3 \<leftarrow> freeMemory (page_provider 8) s2 a;
        (c, s4) \<leftarrow> allocateMemory (page_provider 8) s3 65528;
        Some (free_list s3, hsize s3 8, hnext s3 8, grow_log (world s3),
              c, grow_log (world s4), hsize s4 (c - 8), pad8 65528) }
   = Some (8, 8, NULL, [], 65544, [1, 2], 65544, 65528)"
  apply (subst allocateMemory.simps, simp add: eval_defs)
  apply (subst allocateMemory.simps, simp add: eval_defs)
  apply (subst allocateMemory.simps, simp add: eval_defs)
  apply (subst allocateMemory.simps, simp add: eval_defs)
  apply (subst allocateMemory.simps, simp add: eval_defs)
  done


text \<open>
  Claim C3 fails as stated. On a fresh store of one page the free total is 65520. A
  request of 65520 bytes is an exact match: the total drops to 0, by \<open>S\<close> and not by
  \<open>S + 8\<close>.
\<close>

theorem allocateMemory_exact_match_accounting_counterexample:
  "do { (r0, s0) \<leftarrow> reportFreeMemory (page_provider 4) (boot \<lparr>pages = 1, grow_log = []\<rparr>);
        (a, s1) \<leftarrow> allocateMemory (page_provider 4) s0 65520;
        (r1, s1') \<leftarrow> reportFreeMemory (page_provider 4) s1;
        s2 \<leftarrow> freeMemory (page_provider 4) s1 a;
        (r2, s2') \<leftarrow> reportFreeMemory (page_provider 4) s2;
        Some (a, unat (pad8 65520), r0, r1, r2) }
   = Some (16, 65520, 65520, 0, 65520)"
  apply (simp add: eval_defs)
  apply (subst allocateMemory.simps, simp add: eval_defs)
  done

text \<open>
  Claim C5 fails as stated. The block at 32 (size 16) and the block at 56 (size 65472) are
  the two parts of one split. When the block at 8, their left neighbour, is free, freeing
  both parts in either order gives one free block of size 65520, not
  \<open>16 + 65472 + 8 = 65496\<close>: the neighbour is merged in as well.
\<close>

theorem freeMemory_coalesces_neighbours_counterexample:
  "do { (a, s1) \<leftarrow> allocateMemory (page_provider 4) (boot \<lparr>pages = 1, grow_log = []\<rparr>) 16;
        (b, s2) \<leftarrow> allocateMemory (page_provider 4) s1 16;
        (c, s3) \<leftarrow> allocateMemory (page_provider 4) s2 65472;
        s4 \<leftarrow> freeMemory (page_provider 4) s3 a;
        s5 \<leftarrow> freeMemory (page_provider 4) s4 b;
        s6 \<leftarrow> freeMemory (page_provider 4) s5 c;
        t5 \<leftarrow> freeMemory (page_provider 4) s4 c;
        t6 \<leftarrow> freeMemory (page_provider 4) t5 b;
        Some (b - 8, hsize s2 (b - 8), free_list s2, hsize s2 (free_list s2),
              c - 8, hsize s3 (c - 8),
              free_list s6, hnext s6 8, hsize s6 8, free_list t6, hnext t6 8, hsize t6 8) }
   = Some (32, 16, 56, 65472, 56, 65472, 8, NULL, 65520, 8, NULL, 65520)"
  apply (subst allocateMemory.simps, simp add: eval_defs)
  apply (subst allocateMemory.simps, simp add: eval_defs)
  apply (subst allocateMemory.simps, simp add: eval_defs)
  done

text \<open>
  Claim C10 fails as stated. When the head of the free list has size 0 (here the block at
  65528, the remainder of a split that left no payload), \<open>allocateMemory(0)\<close> is an exact
  match: it returns a pointer that is not \<open>NULL\<close>, but the free total stays 0 and does
  not drop by 8.
\<close>

theorem allocateMemory_zero_exact_counterexample:
  "do { (a, s1) \<leftarrow> allocateMemory (page_provider 4) (boot \<lparr>pages = 1, grow_log = []\<rparr>) 8;
        (b, s2) \<leftarrow> allocateMemory (page_provider 4) s1 65496;
        (r2, s2') \<leftarrow> reportFreeMemory (page_provider 4) s2;
        (c, s3) \<leftarrow> allocateMemory (page_provider 4) s2 0;
        (r3, s3') \<leftarrow> reportFreeMemory (page_provider 4) s3;
        Some (free_list s2, hsize s2 65528, hnext s2 65528, r2, c, r3) }
   = Some (65528, 0, NULL, 0, 65536, 0)"
  apply (subst allocateMemory.simps, simp add: eval_defs)
  apply (subst allocateMemory.simps, simp add: eval_defs)
  apply (subst allocateMemory.simps, simp add: eval_defs)
  done

end
